theory Spec2Isabelle
  imports Main "HOL-Library.AList" "HOL-Library.Sublist"
begin

section \<open>Data model of src/index.ts\<close>

text \<open>
  Strings are modelled by their UTF-8 encoding (a \<open>string\<close> is a list of bytes), so
  \<open>Buffer.byteLength(text, "utf8")\<close> is the length of the list. JavaScript numbers that
  hold integers (timestamps, pids, byte counts, exit codes) are \<open>int\<close>; the program's
  arithmetic on them is exact as long as they stay below \<open>2 ^ 53\<close>.
\<close>

datatype TaskState = running | exited

datatype stream_origin = stdout | stderr

record LogItem =
  t :: int
  stream :: stream_origin
  text' :: string

text \<open>
  The closures pushed on \<open>task.waiters\<close>. Each belongs to one pending tool invocation,
  named by its number: \<open>() => resolve(true)\<close> of the first race in \<open>task_stop\<close>,
  \<open>() => resolve()\<close> of its second race, and \<open>resolve\<close> of the promise \<open>done\<close> in
  \<open>task_wait\<close>.
\<close>

datatype waiter = stop_term_waiter nat | stop_kill_waiter nat | wait_waiter nat

text \<open>
  \<open>proc\<close> is the handle of the child process. Field \<open>id\<close> of the source is \<open>id_task\<close>
  here, and field \<open>text\<close> of a log item is \<open>text'\<close>.
\<close>

record Task =
  id_task :: string
  name :: "string option"
  command :: string
  args :: "string list"
  cwd :: "string option"
  env :: "(string \<times> string) list option"
  createdAt :: int
  proc :: nat
  pid :: int
  state :: TaskState
  exitCode :: "int option"
  signal :: "string option"
  maxLogBytes :: int
  logBytes :: int
  logs :: "LogItem list"
  waiters :: "waiter list"

definition DEFAULT_MAX_LOG_BYTES :: int where
  "DEFAULT_MAX_LOG_BYTES = 1024 * 1024"

text \<open>
  What the program takes from the runtime as given: \<open>Buffer.toString("utf8")\<close>, the
  decoding of a chunk of bytes into a string, \<open>new Date(n).toISOString()\<close>, and the
  signal names of the platform (\<open>os.constants.signals\<close>) other than \<open>SIGTERM\<close> and
  \<open>SIGKILL\<close>, which every platform has.
\<close>

record runtime =
  toString_utf8 :: "string \<Rightarrow> string"
  toISOString :: "int \<Rightarrow> string"
  signal_known :: "string \<Rightarrow> bool"

definition byteLength :: "string \<Rightarrow> int" where
  "byteLength s = int (length s)"

section \<open>The log buffer: pushLog\<close>

text \<open>
  The contribution of one retained item to \<open>logBytes\<close>, and of a whole buffer.
\<close>

definition item_cost :: "LogItem \<Rightarrow> int" where
  "item_cost i = byteLength (text' i) + 16"

definition log_cost :: "LogItem list \<Rightarrow> int" where
  "log_cost is = sum_list (map item_cost is)"

text \<open>
  One iteration of the body of the \<open>while\<close> loop of \<open>pushLog\<close>:
  \<open>const old = task.logs.shift()!; task.logBytes -= Buffer.byteLength(old.text, "utf8") + 16\<close>.
  It is only run on a buffer that is not empty.
\<close>

definition evict_one :: "Task \<Rightarrow> Task" where
  "evict_one task =
     (case logs task of
        [] \<Rightarrow> task
      | old # rest \<Rightarrow>
          task\<lparr>logs := rest, logBytes := logBytes task - (byteLength (text' old) + 16)\<rparr>)"

text \<open>
  The loop \<open>while (task.logBytes > task.maxLogBytes && task.logs.length) { ... }\<close>.
\<close>

function evict :: "Task \<Rightarrow> Task" where
  "evict task =
     (if logBytes task > maxLogBytes task \<and> length (logs task) \<noteq> 0
      then evict (evict_one task)
      else task)"
  by pat_completeness auto
termination
  by (relation "measure (\<lambda>task. length (logs task))")
     (auto simp: evict_one_def split: list.splits)

declare evict.simps [simp del]

definition pushLog :: "runtime \<Rightarrow> Task \<Rightarrow> stream_origin \<Rightarrow> string \<Rightarrow> int \<Rightarrow> Task" where
  "pushLog rt task strm chunk now =
     (let txt = toString_utf8 rt chunk;
          task1 = task\<lparr>logs := logs task @ [\<lparr>t = now, stream = strm, text' = txt\<rparr>]\<rparr>;
          task2 = task1\<lparr>logBytes := logBytes task1 + (byteLength txt + 16)\<rparr>
      in evict task2)"

text \<open>A chunk of output as it arrives: the stream, the bytes and the value of \<open>Date.now()\<close>.\<close>

type_synonym chunk_event = "stream_origin \<times> string \<times> int"

fun pushLogs :: "runtime \<Rightarrow> Task \<Rightarrow> chunk_event list \<Rightarrow> Task" where
  "pushLogs rt task [] = task"
| "pushLogs rt task ((strm, chunk, now) # cs) = pushLogs rt (pushLog rt task strm chunk now) cs"

definition item_of :: "runtime \<Rightarrow> chunk_event \<Rightarrow> LogItem" where
  "item_of rt c = (case c of (strm, chunk, now) \<Rightarrow>
     \<lparr>t = now, stream = strm, text' = toString_utf8 rt chunk\<rparr>)"

section \<open>Responses, errors and the task registry\<close>

text \<open>
  A tool response carries one text. \<open>okJson(v)\<close> is \<open>okText(JSON.stringify(v, null, 2))\<close>;
  the model keeps the value \<open>v\<close> that is printed.
\<close>

datatype json =
    JNull
  | JBool bool
  | JNum int
  | JStr string
  | JArr "json list"
  | JObj "(string \<times> json) list"

datatype ToolResponse = okText string | okJson json

text \<open>
  \<open>Error m\<close> is \<open>throw new Error(m)\<close> (or a rejection with that message);
  \<open>InvalidParams\<close> is the refusal of arguments that do not pass the schema of the tool.
\<close>

datatype error = Error string | InvalidParams

type_synonym result = "error + ToolResponse"

text \<open>
  A tool invocation that is suspended at an \<open>await\<close>, with the variables its
  continuation uses: the two races of \<open>task_stop\<close> (the task \<open>t\<close>), \<open>await done\<close> of
  \<open>task_wait\<close> without a timeout, its race with a timer (\<open>id\<close> and \<open>t\<close>), and the
  write callback of \<open>task_write\<close>.
\<close>

datatype cont =
    stop_race1 nat
  | stop_race2 nat
  | wait_done nat
  | wait_race string nat
  | write_cb

datatype status = Resolved result | Awaiting cont

datatype timer = stop_term_timer nat | stop_kill_timer nat | wait_timer nat

text \<open>What the program does to the outside: \<open>proc.kill(sig)\<close>, \<open>proc.stdin.write(payload, cb)\<close>
  and \<open>setTimeout(cb, ms)\<close>.\<close>

datatype effect =
    kill nat string
  | stdin_write nat string
  | setTimeout timer int

text \<open>
  \<open>proc.kill(sig)\<close> of Node first looks the name up in the table of signals and throws
  \<open>Unknown signal: sig\<close> for a name that is not there, before anything is sent; for a
  name of the table it sends the signal and returns a boolean.
\<close>

definition kill_accepts :: "runtime \<Rightarrow> string \<Rightarrow> bool" where
  "kill_accepts rt sig = (sig = ''SIGTERM'' \<or> sig = ''SIGKILL'' \<or> signal_known rt sig)"


text \<open>
  The state of the server. Task objects are shared by the registry, by the listeners of
  their child process and by suspended invocations, so they live in a store (\<open>heap\<close>,
  addressed by position) and everything else holds addresses. \<open>tasks\<close> is the
  \<open>Map<string, Task>\<close> in insertion order. \<open>calls\<close> holds every tool invocation received,
  by number, with its result once it has one. \<open>sent\<close> lists the effects in order.
  Two fields only observe: \<open>invoked\<close> lists every call \<open>w(task)\<close> of a waiter, and
  \<open>exit_runs\<close> every run of the listener of \<open>"exit"\<close>. One field is the state of the
  runtime: \<open>ended\<close> lists the children for which Node has emitted \<open>"exit"\<close>, which it
  does once for a child, when the child has ended. An address held by the registry,
  by a continuation or by an event of a child is the address of an allocated task
  (\<open>registry_ok\<close> below says so for the registry; the events of a task that does not
  exist change nothing).
\<close>

record sys =
  heap :: "Task list"
  tasks :: "(string \<times> nat) list"
  calls :: "status list"
  sent :: "effect list"
  invoked :: "(waiter \<times> nat) list"
  exit_runs :: "nat list"
  ended :: "nat list"

definition init_sys :: sys where
  "init_sys = \<lparr>heap = [], tasks = [], calls = [], sent = [], invoked = [], exit_runs = [],
                ended = []\<rparr>"

definition getTask :: "sys \<Rightarrow> string \<Rightarrow> error + nat" where
  "getTask s i =
     (case map_of (tasks s) i of
        None \<Rightarrow> Inl (Error (''Task not found: '' @ i))
      | Some r \<Rightarrow> Inr r)"

definition state_json :: "TaskState \<Rightarrow> json" where
  "state_json st = (case st of running \<Rightarrow> JStr ''running'' | exited \<Rightarrow> JStr ''exited'')"

definition str_or_null :: "string option \<Rightarrow> json" where
  "str_or_null v = (case v of None \<Rightarrow> JNull | Some x \<Rightarrow> JStr x)"

definition num_or_null :: "int option \<Rightarrow> json" where
  "num_or_null v = (case v of None \<Rightarrow> JNull | Some n \<Rightarrow> JNum n)"

definition summary :: "Task \<Rightarrow> json" where
  "summary x = JObj
     [(''id'', JStr (id_task x)),
      (''name'', str_or_null (name x)),
      (''command'', JStr (command x)),
      (''args'', JArr (map JStr (args x))),
      (''cwd'', str_or_null (cwd x)),
      (''pid'', JNum (pid x)),
      (''state'', state_json (state x)),
      (''exitCode'', num_or_null (exitCode x)),
      (''signal'', str_or_null (signal x)),
      (''createdAt'', JNum (createdAt x)),
      (''logBytes'', JNum (logBytes x)),
      (''maxLogBytes'', JNum (maxLogBytes x))]"

definition stream_name :: "stream_origin \<Rightarrow> string" where
  "stream_name so = (case so of stdout \<Rightarrow> ''stdout'' | stderr \<Rightarrow> ''stderr'')"

definition formatLogs :: "runtime \<Rightarrow> LogItem list \<Rightarrow> string" where
  "formatLogs rt items =
     concat (map (\<lambda>i. toISOString rt (t i) @ '' ['' @ stream_name (stream i) @ ''] '' @ text' i) items)"

section \<open>The tools\<close>

text \<open>
  What a tool invocation takes from outside the program: the value of \<open>randomUUID()\<close>,
  the \<open>pid\<close> of the object returned by \<open>spawn\<close> (\<open>None\<close> for \<open>undefined\<close>), the value of
  \<open>Date.now()\<close>, and the boolean returned by \<open>proc.kill\<close> in \<open>task_signal\<close>.
\<close>

record outside =
  randomUUID :: string
  spawn_pid :: "int option"
  Date_now :: int
  kill_result :: bool

record start_params =
  p_command :: string
  p_args :: "string list"
  p_cwd :: "string option"
  p_env :: "(string \<times> string) list option"
  p_name :: "string option"
  p_maxLogBytes :: "int option"

text \<open>
  Every handler returns what the invocation has become (a result, or a suspension) and
  the new state. \<open>task_start\<close>: the call of \<open>spawn\<close> is represented by the \<open>pid\<close> of the
  object it returns; \<open>!proc.pid\<close> holds for \<open>undefined\<close> and for \<open>0\<close>. The new Task
  object is allocated at the end of the store, and its child process is named by the same
  address. The listeners registered on the child are the functions \<open>on_data\<close>, \<open>on_error\<close>
  and \<open>on_exit\<close> below, run by the events that name this address.
\<close>

definition task_start :: "outside \<Rightarrow> start_params \<Rightarrow> sys \<Rightarrow> status \<times> sys" where
  "task_start orc p s =
     (let i = randomUUID orc in
      case spawn_pid orc of
        None \<Rightarrow> (Resolved (Inl (Error ''Failed to start process (no pid)'')), s)
      | Some n \<Rightarrow>
          if n = 0
          then (Resolved (Inl (Error ''Failed to start process (no pid)'')), s)
          else
            let r = length (heap s);
                task = \<lparr>id_task = i, name = p_name p, command = p_command p, args = p_args p,
                        cwd = p_cwd p, env = p_env p, createdAt = Date_now orc,
                        proc = r, pid = n, state = running,
                        exitCode = None, signal = None,
                        maxLogBytes = (case p_maxLogBytes p of None \<Rightarrow> DEFAULT_MAX_LOG_BYTES
                                       | Some m \<Rightarrow> m),
                        logBytes = 0, logs = [], waiters = []\<rparr>;
                s1 = s\<lparr>heap := heap s @ [task], tasks := AList.update i r (tasks s)\<rparr>
            in (Resolved (Inr (okJson (JObj
                  [(''id'', JStr i), (''pid'', JNum (pid task)), (''state'', state_json (state task))]))),
                s1))"

definition task_status :: "string \<Rightarrow> sys \<Rightarrow> status \<times> sys" where
  "task_status i s =
     (case getTask s i of
        Inl e \<Rightarrow> (Resolved (Inl e), s)
      | Inr r \<Rightarrow> (Resolved (Inr (okJson (summary (heap s ! r)))), s))"

definition task_list :: "sys \<Rightarrow> status \<times> sys" where
  "task_list s =
     (Resolved (Inr (okJson (JObj
        [(''tasks'', JArr (map (\<lambda>(i, r). summary (heap s ! r)) (tasks s)))]))), s)"

text \<open>\<open>Array.prototype.slice(start)\<close>: a negative start counts from the end.\<close>

definition slice_from :: "'a list \<Rightarrow> int \<Rightarrow> 'a list" where
  "slice_from xs start =
     (let len = int (length xs);
          k = (if start < 0 then max (len + start) 0 else min start len)
      in drop (nat k) xs)"

definition task_logs ::
  "runtime \<Rightarrow> string \<Rightarrow> int option \<Rightarrow> int option \<Rightarrow> bool option \<Rightarrow> sys \<Rightarrow> status \<times> sys" where
  "task_logs rt i offset tail includeTimestamps s =
     (case getTask s i of
        Inl e \<Rightarrow> (Resolved (Inl e), s)
      | Inr r \<Rightarrow>
          let x = heap s ! r;
              ts = (case includeTimestamps of None \<Rightarrow> True | Some b \<Rightarrow> b);
              items = (case tail of
                         Some n \<Rightarrow> slice_from (logs x) (max 0 (int (length (logs x)) - n))
                       | None \<Rightarrow>
                           (case offset of
                              Some k \<Rightarrow> slice_from (logs x) k
                            | None \<Rightarrow> logs x));
              txt = (if ts then formatLogs rt items
                     else concat (map (\<lambda>i. ''['' @ stream_name (stream i) @ ''] '' @ text' i) items))
          in (Resolved (Inr (okJson (JObj
                [(''id'', JStr i),
                 (''state'', state_json (state x)),
                 (''pid'', JNum (pid x)),
                 (''exitCode'', num_or_null (exitCode x)),
                 (''signal'', str_or_null (signal x)),
                 (''logItemCount'', JNum (int (length (logs x)))),
                 (''returnedCount'', JNum (int (length items))),
                 (''text'', JStr txt)]))),
              s))"

text \<open>
  \<open>task_write\<close> suspends until the callback of \<open>stdin.write\<close> is called.
\<close>

definition task_write :: "string \<Rightarrow> string \<Rightarrow> bool option \<Rightarrow> sys \<Rightarrow> status \<times> sys" where
  "task_write i data addNewline s =
     (case getTask s i of
        Inl e \<Rightarrow> (Resolved (Inl e), s)
      | Inr r \<Rightarrow>
          if state (heap s ! r) \<noteq> running
          then (Resolved (Inl (Error ''Task is not running'')), s)
          else
            let payload = (if addNewline = Some True then data @ [CHR 0x0A] else data)
            in (Awaiting write_cb, s\<lparr>sent := sent s @ [stdin_write (proc (heap s ! r)) payload]\<rparr>))"

text \<open>
  \<open>task_signal\<close>: the signal name is any string, and \<open>proc.kill\<close> throws for one it does
  not know.
\<close>

definition task_signal :: "runtime \<Rightarrow> outside \<Rightarrow> string \<Rightarrow> string \<Rightarrow> sys \<Rightarrow> status \<times> sys" where
  "task_signal rt orc i sig s =
     (case getTask s i of
        Inl e \<Rightarrow> (Resolved (Inl e), s)
      | Inr r \<Rightarrow>
          if state (heap s ! r) \<noteq> running
          then (Resolved (Inr (okText ''not running'')), s)
          else if \<not> kill_accepts rt sig
          then (Resolved (Inl (Error (''Unknown signal: '' @ sig))), s)
          else
            let ok = kill_result orc
            in (Resolved (Inr (okJson (JObj
                  [(''ok'', JBool ok), (''id'', JStr i), (''pid'', JNum (pid (heap s ! r))),
                   (''signal'', JStr sig)]))),
                s\<lparr>sent := sent s @ [kill (proc (heap s ! r)) sig]\<rparr>))"

text \<open>\<open>t.waiters.push(w)\<close> for the task at address \<open>r\<close>.\<close>

definition push_waiter :: "nat \<Rightarrow> waiter \<Rightarrow> sys \<Rightarrow> sys" where
  "push_waiter r w s =
     s\<lparr>heap := (heap s)[r := (heap s ! r)\<lparr>waiters := waiters (heap s ! r) @ [w]\<rparr>]\<rparr>"

text \<open>
  \<open>task_stop\<close>, invocation number \<open>c\<close>, up to its first \<open>await\<close>: \<open>SIGTERM\<close>, then the
  race of a waiter against a timer of \<open>timeoutMs ?? 5000\<close>.
\<close>

definition task_stop :: "nat \<Rightarrow> string \<Rightarrow> int option \<Rightarrow> sys \<Rightarrow> status \<times> sys" where
  "task_stop c i timeoutMs s =
     (case getTask s i of
        Inl e \<Rightarrow> (Resolved (Inl e), s)
      | Inr r \<Rightarrow>
          if state (heap s ! r) \<noteq> running
          then (Resolved (Inr (okJson (summary (heap s ! r)))), s)
          else
            let s1 = s\<lparr>sent := sent s @ [kill (proc (heap s ! r)) ''SIGTERM'']\<rparr>;
                s2 = push_waiter r (stop_term_waiter c) s1;
                s3 = s2\<lparr>sent := sent s2 @
                       [setTimeout (stop_term_timer c) (case timeoutMs of None \<Rightarrow> 5000 | Some ms \<Rightarrow> ms)]\<rparr>
            in (Awaiting (stop_race1 r), s3))"

text \<open>
  \<open>task_wait\<close>, invocation number \<open>c\<close>, up to its first \<open>await\<close>.
\<close>

definition task_wait :: "nat \<Rightarrow> string \<Rightarrow> int option \<Rightarrow> sys \<Rightarrow> status \<times> sys" where
  "task_wait c i timeoutMs s =
     (case getTask s i of
        Inl e \<Rightarrow> (Resolved (Inl e), s)
      | Inr r \<Rightarrow>
          if state (heap s ! r) = exited
          then (Resolved (Inr (okJson (summary (heap s ! r)))), s)
          else
            let s1 = push_waiter r (wait_waiter c) s
            in (case timeoutMs of
                  None \<Rightarrow> (Awaiting (wait_done r), s1)
                | Some ms \<Rightarrow>
                    (Awaiting (wait_race i r), s1\<lparr>sent := sent s1 @ [setTimeout (wait_timer c) ms]\<rparr>)))"

text \<open>
  The loop of \<open>task_prune\<close> over the entries of the map. Only the entry being visited is
  ever deleted, so the entries visited are those present when the loop starts.
\<close>

fun prune_loop :: "bool \<Rightarrow> (string \<times> nat) list \<Rightarrow> sys \<Rightarrow> nat \<Rightarrow> sys \<times> nat" where
  "prune_loop inc [] s removed = (s, removed)"
| "prune_loop inc ((i, r) # es) s removed =
     (if state (heap s ! r) = exited \<or> inc
      then prune_loop inc es (s\<lparr>tasks := AList.delete i (tasks s)\<rparr>) (removed + 1)
      else prune_loop inc es s removed)"

definition task_prune :: "bool option \<Rightarrow> sys \<Rightarrow> status \<times> sys" where
  "task_prune includeRunning s =
     (case prune_loop (includeRunning = Some True) (tasks s) s 0 of
        (s1, removed) \<Rightarrow>
          (Resolved (Inr (okJson (JObj
             [(''removed'', JNum (int removed)), (''remaining'', JNum (int (length (tasks s1))))]))),
           s1))"

section \<open>Continuations of suspended invocations\<close>

definition awaiting :: "sys \<Rightarrow> nat \<Rightarrow> cont option" where
  "awaiting s c =
     (if c < length (calls s)
      then (case calls s ! c of Awaiting k \<Rightarrow> Some k | Resolved res \<Rightarrow> None)
      else None)"

text \<open>Invocation \<open>c\<close> returns (or throws) \<open>res\<close>.\<close>

definition resolve :: "nat \<Rightarrow> result \<Rightarrow> sys \<Rightarrow> sys" where
  "resolve c res s = s\<lparr>calls := (calls s)[c := Resolved res]\<rparr>"

text \<open>
  \<open>task_stop\<close> after its first race, whose value is \<open>exited_flag\<close> (\<open>true\<close> from the waiter,
  \<open>false\<close> from the timer): \<open>SIGKILL\<close> and a second race against a timer of 1000 ms, or the
  return of the summary.
\<close>

definition stop_resume1 :: "nat \<Rightarrow> nat \<Rightarrow> bool \<Rightarrow> sys \<Rightarrow> sys" where
  "stop_resume1 c r exited_flag s =
     (if \<not> exited_flag \<and> state (heap s ! r) = running
      then
        let s1 = s\<lparr>sent := sent s @ [kill (proc (heap s ! r)) ''SIGKILL'']\<rparr>;
            s2 = push_waiter r (stop_kill_waiter c) s1;
            s3 = s2\<lparr>sent := sent s2 @ [setTimeout (stop_kill_timer c) 1000]\<rparr>
        in s3\<lparr>calls := (calls s3)[c := Awaiting (stop_race2 r)]\<rparr>
      else resolve c (Inr (okJson (summary (heap s ! r)))) s)"

text \<open>\<open>task_stop\<close> after its second race: \<open>return okJson(summary(t))\<close>.\<close>

definition stop_resume2 :: "nat \<Rightarrow> nat \<Rightarrow> sys \<Rightarrow> sys" where
  "stop_resume2 c r s = resolve c (Inr (okJson (summary (heap s ! r)))) s"

text \<open>\<open>task_wait\<close> without a timeout, after \<open>await done\<close> has given the task \<open>res\<close>.\<close>

definition wait_resume_done :: "nat \<Rightarrow> nat \<Rightarrow> sys \<Rightarrow> sys" where
  "wait_resume_done c res s = resolve c (Inr (okJson (summary (heap s ! res)))) s"

text \<open>
  \<open>task_wait\<close> after its race, whose value \<open>res\<close> is the task given to the waiter, or
  \<open>null\<close> from the timer.
\<close>

definition wait_resume :: "nat \<Rightarrow> string \<Rightarrow> nat \<Rightarrow> nat option \<Rightarrow> sys \<Rightarrow> sys" where
  "wait_resume c i r res s =
     (case res of
        None \<Rightarrow>
          resolve c (Inr (okJson (JObj
            [(''id'', JStr i), (''state'', state_json (state (heap s ! r))),
             (''pid'', JNum (pid (heap s ! r))), (''timeout'', JBool True)]))) s
      | Some x \<Rightarrow> resolve c (Inr (okJson (summary (heap s ! x)))) s)"

text \<open>
  The call \<open>w(task)\<close> of a waiter with the task at address \<open>r\<close>. It settles the promise of
  its invocation; if that invocation is still awaiting the race or promise the waiter
  belongs to, its continuation runs (as a microtask, before any other event; no
  continuation run from a waiter changes a task, so the model runs it at once).
  A promise that is already settled stays as it is.
\<close>

definition call_waiter :: "waiter \<Rightarrow> nat \<Rightarrow> sys \<Rightarrow> sys" where
  "call_waiter w r s =
     (let s1 = s\<lparr>invoked := invoked s @ [(w, r)]\<rparr>
      in case w of
           stop_term_waiter c \<Rightarrow>
             (case awaiting s1 c of
                Some (stop_race1 r') \<Rightarrow> stop_resume1 c r' True s1
              | _ \<Rightarrow> s1)
         | stop_kill_waiter c \<Rightarrow>
             (case awaiting s1 c of
                Some (stop_race2 r') \<Rightarrow> stop_resume2 c r' s1
              | _ \<Rightarrow> s1)
         | wait_waiter c \<Rightarrow>
             (case awaiting s1 c of
                Some (wait_done r') \<Rightarrow> wait_resume_done c r s1
              | Some (wait_race i r') \<Rightarrow> wait_resume c i r' (Some r) s1
              | _ \<Rightarrow> s1))"

text \<open>
  The listener of \<open>"exit"\<close> registered by \<open>task_start\<close> for the task at address \<open>r\<close>:
  \<open>task.waiters.splice(0)\<close> empties the list and gives its former elements to the loop.
\<close>

definition on_exit :: "nat \<Rightarrow> int option \<Rightarrow> string option \<Rightarrow> sys \<Rightarrow> sys" where
  "on_exit r code sig s =
     (let task = heap s ! r;
          ws = waiters task;
          s1 = s\<lparr>heap := (heap s)[r := task\<lparr>state := exited, exitCode := code, signal := sig,
                                               waiters := []\<rparr>],
                 exit_runs := exit_runs s @ [r]\<rparr>
      in fold (\<lambda>w. call_waiter w r) ws s1)"

text \<open>The listeners of \<open>"data"\<close> on the two streams, and of \<open>"error"\<close> (\<open>err\<close> is \<open>String(err)\<close>).\<close>

definition on_data :: "runtime \<Rightarrow> nat \<Rightarrow> stream_origin \<Rightarrow> string \<Rightarrow> int \<Rightarrow> sys \<Rightarrow> sys" where
  "on_data rt r strm chunk now s = s\<lparr>heap := (heap s)[r := pushLog rt (heap s ! r) strm chunk now]\<rparr>"

definition on_error :: "runtime \<Rightarrow> nat \<Rightarrow> string \<Rightarrow> int \<Rightarrow> sys \<Rightarrow> sys" where
  "on_error rt r err now s = on_data rt r stderr (''Process error: '' @ err @ [CHR 0x0A]) now s"

text \<open>A timer fires: \<open>resolve(false)\<close>, \<open>resolve()\<close> or \<open>resolve(null)\<close> of its race.\<close>

definition fire_timer :: "timer \<Rightarrow> sys \<Rightarrow> sys" where
  "fire_timer tm s =
     (case tm of
        stop_term_timer c \<Rightarrow>
          (case awaiting s c of
             Some (stop_race1 r) \<Rightarrow> stop_resume1 c r False s
           | _ \<Rightarrow> s)
      | stop_kill_timer c \<Rightarrow>
          (case awaiting s c of
             Some (stop_race2 r) \<Rightarrow> stop_resume2 c r s
           | _ \<Rightarrow> s)
      | wait_timer c \<Rightarrow>
          (case awaiting s c of
             Some (wait_race i r) \<Rightarrow> wait_resume c i r None s
           | _ \<Rightarrow> s))"

text \<open>The callback of \<open>stdin.write\<close>: \<open>e ? reject(e) : resolve()\<close>, then \<open>return okText("ok")\<close>.\<close>

definition write_done :: "nat \<Rightarrow> string option \<Rightarrow> sys \<Rightarrow> sys" where
  "write_done c e s =
     (case awaiting s c of
        Some write_cb \<Rightarrow>
          resolve c (case e of None \<Rightarrow> Inr (okText ''ok'') | Some m \<Rightarrow> Inl (Error m)) s
      | _ \<Rightarrow> s)"

section \<open>The server as a transition system\<close>

datatype request =
    Task_start start_params
  | Task_status string
  | Task_list
  | Task_logs string "int option" "int option" "bool option"
  | Task_write string string "bool option"
  | Task_signal string string
  | Task_stop string "int option"
  | Task_wait string "int option"
  | Task_prune "bool option"

definition at_least :: "int \<Rightarrow> int option \<Rightarrow> bool" where
  "at_least m v = (case v of None \<Rightarrow> True | Some n \<Rightarrow> m \<le> n)"

text \<open>The numeric constraints of the schemas: \<open>.min(1024)\<close> and \<open>.min(0)\<close>.\<close>

definition schema_ok :: "request \<Rightarrow> bool" where
  "schema_ok q =
     (case q of
        Task_start p \<Rightarrow> at_least 1024 (p_maxLogBytes p)
      | Task_logs i offset tail ts \<Rightarrow> at_least 0 offset \<and> at_least 0 tail
      | Task_stop i timeoutMs \<Rightarrow> at_least 0 timeoutMs
      | Task_wait i timeoutMs \<Rightarrow> at_least 0 timeoutMs
      | _ \<Rightarrow> True)"

definition handler :: "runtime \<Rightarrow> outside \<Rightarrow> nat \<Rightarrow> request \<Rightarrow> sys \<Rightarrow> status \<times> sys" where
  "handler rt orc c q s =
     (case q of
        Task_start p \<Rightarrow> task_start orc p s
      | Task_status i \<Rightarrow> task_status i s
      | Task_list \<Rightarrow> task_list s
      | Task_logs i offset tail ts \<Rightarrow> task_logs rt i offset tail ts s
      | Task_write i data addNewline \<Rightarrow> task_write i data addNewline s
      | Task_signal i sig \<Rightarrow> task_signal rt orc i sig s
      | Task_stop i timeoutMs \<Rightarrow> task_stop c i timeoutMs s
      | Task_wait i timeoutMs \<Rightarrow> task_wait c i timeoutMs s
      | Task_prune includeRunning \<Rightarrow> task_prune includeRunning s)"

text \<open>
  A tool invocation arrives. It gets the next number; its handler runs up to its first
  \<open>await\<close> or its end, unless the arguments fail the schema.
\<close>

definition invoke :: "runtime \<Rightarrow> outside \<Rightarrow> request \<Rightarrow> sys \<Rightarrow> sys" where
  "invoke rt orc q s =
     (if \<not> schema_ok q then s\<lparr>calls := calls s @ [Resolved (Inl InvalidParams)]\<rparr>
      else (case handler rt orc (length (calls s)) q s of
              (st, s1) \<Rightarrow> s1\<lparr>calls := calls s1 @ [st]\<rparr>))"

text \<open>
  The events of the single thread of control. Events of a child process name the address
  of the task whose listeners they reach. Node emits \<open>"exit"\<close> for a child once: an exit
  event of a child that is in \<open>ended\<close> does not occur, and changes nothing.
\<close>

datatype event =
    tool_call request outside
  | data_event nat stream_origin string int
  | error_event nat string int
  | exit_event nat "int option" "string option"
  | timer_event timer
  | write_event nat "string option"

fun step :: "runtime \<Rightarrow> sys \<Rightarrow> event \<Rightarrow> sys" where
  "step rt s (tool_call q orc) = invoke rt orc q s"
| "step rt s (data_event r strm chunk now) =
     (if r < length (heap s) then on_data rt r strm chunk now s else s)"
| "step rt s (error_event r err now) =
     (if r < length (heap s) then on_error rt r err now s else s)"
| "step rt s (exit_event r code sig) =
     (if r < length (heap s) \<and> r \<notin> set (ended s)
      then on_exit r code sig (s\<lparr>ended := ended s @ [r]\<rparr>)
      else s)"
| "step rt s (timer_event tm) = fire_timer tm s"
| "step rt s (write_event c e) = write_done c e s"

fun run :: "runtime \<Rightarrow> sys \<Rightarrow> event list \<Rightarrow> sys" where
  "run rt s [] = s"
| "run rt s (e # es) = run rt (step rt s e) es"

section \<open>Notions used in the statements\<close>

text \<open>The accounting of a task is exact.\<close>

definition accounted :: "Task \<Rightarrow> bool" where
  "accounted x = (logBytes x = log_cost (logs x))"

text \<open>
  What a \<open>Map\<close> filled by \<open>task_start\<close> satisfies: keys are distinct, every value is an
  allocated task, and a task is registered under its own id.
\<close>

definition registry_ok :: "sys \<Rightarrow> bool" where
  "registry_ok s =
     (distinct (map fst (tasks s)) \<and>
      list_all (\<lambda>(i, r). r < length (heap s) \<and> id_task (heap s ! r) = i) (tasks s))"

text \<open>
  How a task object may differ between an earlier and a later state: its identity is
  kept, \<open>exited\<close> is kept, exact accounting is kept.
\<close>

definition task_evolved :: "Task \<Rightarrow> Task \<Rightarrow> bool" where
  "task_evolved x y =
     (id_task y = id_task x \<and> pid y = pid x \<and> proc y = proc x \<and>
      maxLogBytes y = maxLogBytes x \<and>
      (state x = exited \<longrightarrow> state y = exited) \<and>
      (accounted x \<longrightarrow> accounted y))"

definition heap_evolved :: "Task list \<Rightarrow> Task list \<Rightarrow> bool" where
  "heap_evolved h h' =
     (length h \<le> length h' \<and>
      (\<forall>r < length h. task_evolved (h ! r) (h' ! r)) \<and>
      (\<forall>r < length h'. length h \<le> r \<longrightarrow> accounted (h' ! r)))"

text \<open>The last \<open>n\<close> items of a list, in their order.\<close>

definition last_n :: "nat \<Rightarrow> 'a list \<Rightarrow> 'a list" where
  "last_n n xs = rev (take n (rev xs))"

text \<open>
  The selection of \<open>logs\<close> in the words of its description: the last \<open>tail\<close> items, no more
  than there are, when \<open>tail\<close> is given; else the items from index \<open>offset\<close> on when
  \<open>offset\<close> is given; else all.
\<close>

definition selected :: "int option \<Rightarrow> int option \<Rightarrow> 'a list \<Rightarrow> 'a list" where
  "selected offset tail xs =
     (case tail of
        Some n \<Rightarrow> last_n (min (nat n) (length xs)) xs
      | None \<Rightarrow> (case offset of Some k \<Rightarrow> drop (nat k) xs | None \<Rightarrow> xs))"

text \<open>Invocation \<open>c\<close> has returned the summary of the task at \<open>r\<close> as it is in state \<open>s\<close>.\<close>

definition returned_summary :: "sys \<Rightarrow> nat \<Rightarrow> nat \<Rightarrow> bool" where
  "returned_summary s c r =
     (c < length (calls s) \<and> calls s ! c = Resolved (Inr (okJson (summary (heap s ! r)))))"

text \<open>The invocation a waiter, or a timer, belongs to.\<close>

fun waiter_call :: "waiter \<Rightarrow> nat" where
  "waiter_call (stop_term_waiter c) = c"
| "waiter_call (stop_kill_waiter c) = c"
| "waiter_call (wait_waiter c) = c"

fun timer_call :: "timer \<Rightarrow> nat" where
  "timer_call (stop_term_timer c) = c"
| "timer_call (stop_kill_timer c) = c"
| "timer_call (wait_timer c) = c"

text \<open>
  Every waiter in a list belongs to an invocation already received. With \<open>registry_ok\<close>
  this is what holds in every state the server reaches.
\<close>

definition waiters_bounded :: "sys \<Rightarrow> bool" where
  "waiters_bounded s =
     list_all (\<lambda>x. list_all (\<lambda>w. waiter_call w < length (calls s)) (waiters x)) (heap s)"

definition sys_ok :: "sys \<Rightarrow> bool" where
  "sys_ok s = (registry_ok s \<and> waiters_bounded s)"

text \<open>The waiter \<open>w\<close> is one that event \<open>e\<close> may push in state \<open>s\<close>.\<close>

definition pushed_by :: "sys \<Rightarrow> event \<Rightarrow> waiter \<Rightarrow> bool" where
  "pushed_by s e w =
     (case e of
        tool_call q orc \<Rightarrow> waiter_call w = length (calls s)
      | timer_event tm \<Rightarrow> tm = stop_term_timer (waiter_call w) \<and> w = stop_kill_waiter (waiter_call w) \<and>
                              waiter_call w < length (calls s)
      | _ \<Rightarrow> False)"

text \<open>
  Invocation \<open>c\<close> is a \<open>task_wait\<close> suspended with continuation \<open>k\<close>, and its waiter is
  queued on the task at \<open>r\<close> and on no other.
\<close>

definition is_wait :: "cont \<Rightarrow> bool" where
  "is_wait k = (case k of wait_done r \<Rightarrow> True | wait_race i r \<Rightarrow> True | _ \<Rightarrow> False)"

definition wait_pending :: "sys \<Rightarrow> nat \<Rightarrow> cont \<Rightarrow> nat \<Rightarrow> bool" where
  "wait_pending s c k r =
     (is_wait k \<and> awaiting s c = Some k \<and> r < length (heap s) \<and>
      wait_waiter c \<in> set (waiters (heap s ! r)) \<and>
      (\<forall>r' < length (heap s). wait_waiter c \<in> set (waiters (heap s ! r')) \<longrightarrow> r' = r))"

text \<open>
  The runtime's list of ended children agrees with the program: the listener of \<open>"exit"\<close>
  has run for each of them, once, and their tasks are \<open>exited\<close>.
\<close>

definition ended_ok :: "sys \<Rightarrow> bool" where
  "ended_ok s =
     (exit_runs s = ended s \<and> distinct (ended s) \<and>
      list_all (\<lambda>r. r < length (heap s) \<and> state (heap s ! r) = exited) (ended s))"


text \<open>The number of \<open>"exit"\<close> events of the child of the task at address \<open>r\<close>.\<close>

fun exit_count :: "nat \<Rightarrow> event list \<Rightarrow> nat" where
  "exit_count r [] = 0"
| "exit_count r (exit_event r' code sig # es) = (if r' = r then 1 else 0) + exit_count r es"
| "exit_count r (e # es) = exit_count r es"

text \<open>
  The state in which invocation \<open>c\<close> is first found to have returned, along a run.
\<close>

fun first_resolved :: "runtime \<Rightarrow> sys \<Rightarrow> event list \<Rightarrow> nat \<Rightarrow> sys option" where
  "first_resolved rt s [] c = (if awaiting s c = None then Some s else None)"
| "first_resolved rt s (e # es) c =
     (if awaiting s c = None then Some s else first_resolved rt (step rt s e) es c)"

section \<open>Concrete values for the examples\<close>

text \<open>
  A runtime whose decoder is the identity (right on ASCII chunks), with a few signal names.
\<close>

definition rt0 :: runtime where
  "rt0 = \<lparr>toString_utf8 = (\<lambda>b. b), toISOString = (\<lambda>n. ''T''),
           signal_known = (\<lambda>n. n \<in> set [''SIGINT'', ''SIGHUP'', ''SIGQUIT'', ''SIGUSR1'', ''SIGUSR2''])\<rparr>"

definition task0 :: Task where
  "task0 = \<lparr>id_task = ''a'', name = None, command = ''sh'', args = [],
            cwd = None, env = None, createdAt = 0, proc = 0, pid = 7, state = running,
            exitCode = None, signal = None, maxLogBytes = 30, logBytes = 19,
            logs = [\<lparr>t = 1, stream = stdout, text' = ''one''\<rparr>], waiters = []\<rparr>"

definition out0 :: outside where
  "out0 = \<lparr>randomUUID = ''a'', spawn_pid = Some 7, Date_now = 0, kill_result = True\<rparr>"

definition sys0 :: sys where
  "sys0 = \<lparr>heap = [task0\<lparr>logs := [\<lparr>t = 1, stream = stdout, text' = ''one''\<rparr>,
                                    \<lparr>t = 2, stream = stderr, text' = ''two''\<rparr>,
                                    \<lparr>t = 3, stream = stdout, text' = ''three''\<rparr>],
                           logBytes := 59, maxLogBytes := 1024\<rparr>,
                     task0\<lparr>id_task := ''b'', proc := 1, pid := 8, state := exited,
                           exitCode := Some 0\<rparr>],
             tasks = [(''a'', 0), (''b'', 1)], calls = [], sent = [], invoked = [],
             exit_runs = [1], ended = [1]\<rparr>"

definition params0 :: start_params where
  "params0 = \<lparr>p_command = ''sh'', p_args = [], p_cwd = None, p_env = None, p_name = None,
               p_maxLogBytes = Some 1024\<rparr>"

section \<open>Lemmas about the eviction loop\<close>

lemma evict_go:
  "logBytes task > maxLogBytes task \<and> length (logs task) \<noteq> 0 \<Longrightarrow> evict task = evict (evict_one task)"
  by (subst evict.simps) auto

lemma evict_stop:
  "\<not> (logBytes task > maxLogBytes task \<and> length (logs task) \<noteq> 0) \<Longrightarrow> evict task = task"
  by (subst evict.simps) auto

lemma evict_one_keeps:
  "evict_one task = task\<lparr>logs := logs (evict_one task), logBytes := logBytes (evict_one task)\<rparr>"
  by (simp add: evict_one_def split: list.splits)

lemma evict_keeps:
  "evict task = task\<lparr>logs := logs (evict task), logBytes := logBytes (evict task)\<rparr>"
proof (induction task rule: evict.induct)
  case (1 task)
  show ?case
  proof (cases "logBytes task > maxLogBytes task \<and> length (logs task) \<noteq> 0")
    case True
    then have e: "evict task = evict (evict_one task)"
      by (rule evict_go)
    have "evict (evict_one task) =
            (evict_one task)\<lparr>logs := logs (evict (evict_one task)),
                              logBytes := logBytes (evict (evict_one task))\<rparr>"
      using "1.IH" True by simp
    also have "\<dots> = task\<lparr>logs := logs (evict (evict_one task)),
                              logBytes := logBytes (evict (evict_one task))\<rparr>"
      by (subst evict_one_keeps) simp
    finally show ?thesis by (simp add: e)
  next
    case False
    then have "evict task = task" by (rule evict_stop)
    then show ?thesis by simp
  qed
qed

lemma evict_one_cost:
  "logs task = old # rest \<Longrightarrow>
   logs (evict_one task) = rest \<and> logBytes (evict_one task) = logBytes task - item_cost old"
  by (simp add: evict_one_def item_cost_def)

lemma evict_one_accounted:
  "logBytes task = log_cost (logs task) \<Longrightarrow>
   logBytes (evict_one task) = log_cost (logs (evict_one task))"
  by (simp add: evict_one_def log_cost_def item_cost_def split: list.splits)

lemma evict_accounted:
  "logBytes task = log_cost (logs task) \<Longrightarrow> logBytes (evict task) = log_cost (logs (evict task))"
proof (induction task rule: evict.induct)
  case (1 task)
  show ?case
  proof (cases "logBytes task > maxLogBytes task \<and> length (logs task) \<noteq> 0")
    case True
    then have "evict task = evict (evict_one task)" by (rule evict_go)
    then show ?thesis using "1.IH" True evict_one_accounted [OF "1.prems"] by simp
  next
    case False
    then have "evict task = task" by (rule evict_stop)
    then show ?thesis using "1.prems" by simp
  qed
qed

lemma pushLog_accounted:
  "logBytes task = log_cost (logs task) \<Longrightarrow>
   logBytes (pushLog rt task strm chunk now) = log_cost (logs (pushLog rt task strm chunk now))"
  unfolding pushLog_def Let_def
  by (rule evict_accounted) (simp add: log_cost_def item_cost_def)

lemma pushLogs_accounted:
  "logBytes task = log_cost (logs task) \<Longrightarrow>
   logBytes (pushLogs rt task cs) = log_cost (logs (pushLogs rt task cs))"
  by (induction cs arbitrary: task) (auto simp: pushLog_accounted)

lemma evict_one_max: "maxLogBytes (evict_one task) = maxLogBytes task"
  by (subst evict_one_keeps) simp

lemma evict_max: "maxLogBytes (evict task) = maxLogBytes task"
  by (subst evict_keeps) simp

lemma evict_bounded: "logBytes (evict task) \<le> maxLogBytes (evict task) \<or> logs (evict task) = []"
proof (induction task rule: evict.induct)
  case (1 task)
  show ?case
  proof (cases "logBytes task > maxLogBytes task \<and> length (logs task) \<noteq> 0")
    case True
    then have "evict task = evict (evict_one task)" by (rule evict_go)
    then show ?thesis using "1.IH" True by simp
  next
    case False
    then have "evict task = task" by (rule evict_stop)
    then show ?thesis using False by auto
  qed
qed

lemma evict_one_suffix: "suffix (logs (evict_one task)) (logs task)"
  by (simp add: evict_one_def suffix_ConsI split: list.splits)

lemma evict_suffix: "suffix (logs (evict task)) (logs task)"
proof (induction task rule: evict.induct)
  case (1 task)
  show ?case
  proof (cases "logBytes task > maxLogBytes task \<and> length (logs task) \<noteq> 0")
    case True
    then have "evict task = evict (evict_one task)" by (rule evict_go)
    then show ?thesis using "1.IH" True evict_one_suffix [of task]
      by (auto intro: suffix_order.trans)
  next
    case False
    then have "evict task = task" by (rule evict_stop)
    then show ?thesis by simp
  qed
qed

lemma pushLog_suffix:
  "suffix (logs (pushLog rt task strm chunk now))
          (logs task @ [\<lparr>t = now, stream = strm, text' = toString_utf8 rt chunk\<rparr>])"
  unfolding pushLog_def Let_def
  using evict_suffix [of "task\<lparr>logs := logs task @ [\<lparr>t = now, stream = strm, text' = toString_utf8 rt chunk\<rparr>],
            logBytes := logBytes task + (byteLength (toString_utf8 rt chunk) + 16)\<rparr>"]
  by simp

lemma pushLogs_suffix:
  "suffix (logs (pushLogs rt task cs)) (logs task @ map (item_of rt) cs)"
proof (induction cs arbitrary: task)
  case Nil
  then show ?case by simp
next
  case (Cons c cs)
  obtain strm chunk now where c: "c = (strm, chunk, now)" by (cases c) auto
  obtain us where "logs task @ [item_of rt c] = us @ logs (pushLog rt task strm chunk now)"
    using pushLog_suffix [of rt task strm chunk now] by (auto simp: c item_of_def suffix_def)
  then have "logs task @ map (item_of rt) (c # cs) =
             us @ (logs (pushLog rt task strm chunk now) @ map (item_of rt) cs)"
    by simp
  then have "suffix (logs (pushLog rt task strm chunk now) @ map (item_of rt) cs)
                    (logs task @ map (item_of rt) (c # cs))"
    unfolding suffix_def by blast
  moreover have "suffix (logs (pushLogs rt task (c # cs)))
                        (logs (pushLog rt task strm chunk now) @ map (item_of rt) cs)"
    using Cons.IH [of "pushLog rt task strm chunk now"] by (simp add: c)
  ultimately show ?case
    by (rule suffix_order.trans [rotated])
qed

lemma pushLog_bounded:
  "logBytes (pushLog rt task strm chunk now) \<le> maxLogBytes task \<or> logs (pushLog rt task strm chunk now) = []"
  unfolding pushLog_def Let_def
  using evict_bounded [of "task\<lparr>logs := logs task @ [\<lparr>t = now, stream = strm, text' = toString_utf8 rt chunk\<rparr>],
            logBytes := logBytes task + (byteLength (toString_utf8 rt chunk) + 16)\<rparr>"]
  by (simp add: evict_max)

section \<open>What each transition changes\<close>

lemma task_evolved_refl [simp]: "task_evolved x x"
  by (simp add: task_evolved_def)

lemma task_evolved_trans: "task_evolved x y \<Longrightarrow> task_evolved y z \<Longrightarrow> task_evolved x z"
  by (simp add: task_evolved_def)

lemma heap_evolved_refl [simp]: "heap_evolved h h"
  by (simp add: heap_evolved_def)

lemma heap_evolved_trans:
  assumes "heap_evolved h1 h2" and "heap_evolved h2 h3"
  shows "heap_evolved h1 h3"
  unfolding heap_evolved_def
proof (intro conjI allI impI)
  show "length h1 \<le> length h3"
    using assms by (simp add: heap_evolved_def)
next
  fix r assume "r < length h1"
  then have "task_evolved (h1 ! r) (h2 ! r)" and "task_evolved (h2 ! r) (h3 ! r)"
    using assms by (auto simp: heap_evolved_def)
  then show "task_evolved (h1 ! r) (h3 ! r)" by (rule task_evolved_trans)
next
  fix r assume r: "r < length h3" "length h1 \<le> r"
  show "accounted (h3 ! r)"
  proof (cases "r < length h2")
    case True
    then have "accounted (h2 ! r)" and "task_evolved (h2 ! r) (h3 ! r)"
      using assms r by (auto simp: heap_evolved_def)
    then show ?thesis by (simp add: task_evolved_def)
  next
    case False
    then show ?thesis using assms r by (auto simp: heap_evolved_def)
  qed
qed

lemma heap_evolved_update:
  "task_evolved (h ! r) y \<Longrightarrow> heap_evolved h (h[r := y])"
  by (cases "r < length h") (auto simp: heap_evolved_def nth_list_update)

lemma heap_evolved_append:
  "accounted y \<Longrightarrow> heap_evolved h (h @ [y])"
  by (auto simp: heap_evolved_def nth_append)

lemma pushLog_keeps:
  "pushLog rt task strm chunk now =
     task\<lparr>logs := logs (pushLog rt task strm chunk now),
          logBytes := logBytes (pushLog rt task strm chunk now)\<rparr>"
  unfolding pushLog_def Let_def by (subst evict_keeps) simp

lemma pushLog_evolved: "task_evolved task (pushLog rt task strm chunk now)"
proof -
  have "task_evolved task (task\<lparr>logs := logs (pushLog rt task strm chunk now),
          logBytes := logBytes (pushLog rt task strm chunk now)\<rparr>)"
    using pushLog_accounted [of task rt strm chunk now]
    by (simp add: task_evolved_def accounted_def)
  then show ?thesis using pushLog_keeps [of rt task strm chunk now] by simp
qed

lemma resolve_fields [simp]:
  "heap (resolve c res s) = heap s"
  "tasks (resolve c res s) = tasks s"
  "sent (resolve c res s) = sent s"
  "invoked (resolve c res s) = invoked s"
  "exit_runs (resolve c res s) = exit_runs s"
  "calls (resolve c res s) = (calls s)[c := Resolved res]"
  by (simp_all add: resolve_def)

lemma push_waiter_fields [simp]:
  "heap (push_waiter r w s) = (heap s)[r := (heap s ! r)\<lparr>waiters := waiters (heap s ! r) @ [w]\<rparr>]"
  "tasks (push_waiter r w s) = tasks s"
  "sent (push_waiter r w s) = sent s"
  "invoked (push_waiter r w s) = invoked s"
  "exit_runs (push_waiter r w s) = exit_runs s"
  "calls (push_waiter r w s) = calls s"
  by (simp_all add: push_waiter_def)

lemma waiters_evolved [simp]: "task_evolved x (x\<lparr>waiters := ws\<rparr>)"
  by (simp add: task_evolved_def accounted_def)

lemma exit_evolved [simp]:
  "task_evolved x (x\<lparr>state := exited, exitCode := code, signal := sig, waiters := ws\<rparr>)"
  by (simp add: task_evolved_def accounted_def)

lemma stop_resume1_fields [simp]:
  "tasks (stop_resume1 c r b s) = tasks s"
  "invoked (stop_resume1 c r b s) = invoked s"
  "exit_runs (stop_resume1 c r b s) = exit_runs s"
  "length (calls (stop_resume1 c r b s)) = length (calls s)"
  "length (heap (stop_resume1 c r b s)) = length (heap s)"
  by (simp_all add: stop_resume1_def Let_def)

lemma stop_resume1_True [simp]:
  "stop_resume1 c r True s = resolve c (Inr (okJson (summary (heap s ! r)))) s"
  by (simp add: stop_resume1_def)

lemma stop_resume1_heap: "heap_evolved (heap s) (heap (stop_resume1 c r b s))"
  by (simp add: stop_resume1_def Let_def heap_evolved_update)

lemma stop_resume2_fields [simp]:
  "heap (stop_resume2 c r s) = heap s"
  "tasks (stop_resume2 c r s) = tasks s"
  "sent (stop_resume2 c r s) = sent s"
  "invoked (stop_resume2 c r s) = invoked s"
  "exit_runs (stop_resume2 c r s) = exit_runs s"
  "calls (stop_resume2 c r s) = (calls s)[c := Resolved (Inr (okJson (summary (heap s ! r))))]"
  by (simp_all add: stop_resume2_def)

lemma wait_resume_done_fields [simp]:
  "heap (wait_resume_done c r s) = heap s"
  "tasks (wait_resume_done c r s) = tasks s"
  "sent (wait_resume_done c r s) = sent s"
  "invoked (wait_resume_done c r s) = invoked s"
  "exit_runs (wait_resume_done c r s) = exit_runs s"
  "calls (wait_resume_done c r s) = (calls s)[c := Resolved (Inr (okJson (summary (heap s ! r))))]"
  by (simp_all add: wait_resume_done_def)

lemma wait_resume_fields [simp]:
  "heap (wait_resume c i r res s) = heap s"
  "tasks (wait_resume c i r res s) = tasks s"
  "sent (wait_resume c i r res s) = sent s"
  "invoked (wait_resume c i r res s) = invoked s"
  "exit_runs (wait_resume c i r res s) = exit_runs s"
  "length (calls (wait_resume c i r res s)) = length (calls s)"
  by (simp_all add: wait_resume_def split: option.splits)

lemma call_waiter_fields [simp]:
  "heap (call_waiter w r s) = heap s"
  "tasks (call_waiter w r s) = tasks s"
  "sent (call_waiter w r s) = sent s"
  "invoked (call_waiter w r s) = invoked s @ [(w, r)]"
  "exit_runs (call_waiter w r s) = exit_runs s"
  "length (calls (call_waiter w r s)) = length (calls s)"
  by (simp_all add: call_waiter_def Let_def split: waiter.splits option.splits cont.splits)

lemma fold_call_waiter_fields [simp]:
  "heap (fold (\<lambda>w. call_waiter w r) ws s) = heap s"
  "tasks (fold (\<lambda>w. call_waiter w r) ws s) = tasks s"
  "sent (fold (\<lambda>w. call_waiter w r) ws s) = sent s"
  "invoked (fold (\<lambda>w. call_waiter w r) ws s) = invoked s @ map (\<lambda>w. (w, r)) ws"
  "exit_runs (fold (\<lambda>w. call_waiter w r) ws s) = exit_runs s"
  "length (calls (fold (\<lambda>w. call_waiter w r) ws s)) = length (calls s)"
  by (induction ws arbitrary: s; simp)+

lemma on_exit_fields [simp]:
  "heap (on_exit r code sig s) =
     (heap s)[r := (heap s ! r)\<lparr>state := exited, exitCode := code, signal := sig, waiters := []\<rparr>]"
  "tasks (on_exit r code sig s) = tasks s"
  "sent (on_exit r code sig s) = sent s"
  "invoked (on_exit r code sig s) = invoked s @ map (\<lambda>w. (w, r)) (waiters (heap s ! r))"
  "exit_runs (on_exit r code sig s) = exit_runs s @ [r]"
  "length (calls (on_exit r code sig s)) = length (calls s)"
  by (simp_all add: on_exit_def Let_def)

lemma on_data_fields [simp]:
  "heap (on_data rt r strm chunk now s) = (heap s)[r := pushLog rt (heap s ! r) strm chunk now]"
  "tasks (on_data rt r strm chunk now s) = tasks s"
  "sent (on_data rt r strm chunk now s) = sent s"
  "invoked (on_data rt r strm chunk now s) = invoked s"
  "exit_runs (on_data rt r strm chunk now s) = exit_runs s"
  "calls (on_data rt r strm chunk now s) = calls s"
  by (simp_all add: on_data_def)

lemma fire_timer_fields [simp]:
  "tasks (fire_timer tm s) = tasks s"
  "invoked (fire_timer tm s) = invoked s"
  "exit_runs (fire_timer tm s) = exit_runs s"
  "length (calls (fire_timer tm s)) = length (calls s)"
  "length (heap (fire_timer tm s)) = length (heap s)"
  by (simp_all add: fire_timer_def split: timer.splits option.splits cont.splits)

lemma fire_timer_heap: "heap_evolved (heap s) (heap (fire_timer tm s))"
  by (simp add: fire_timer_def stop_resume1_heap split: timer.splits option.splits cont.splits)

lemma write_done_fields [simp]:
  "heap (write_done c e s) = heap s"
  "tasks (write_done c e s) = tasks s"
  "sent (write_done c e s) = sent s"
  "invoked (write_done c e s) = invoked s"
  "exit_runs (write_done c e s) = exit_runs s"
  "length (calls (write_done c e s)) = length (calls s)"
  by (simp_all add: write_done_def split: option.splits cont.splits)

section \<open>Pruning, and the heap along a run\<close>

lemma prune_loop_eq:
  "prune_loop inc es s n =
     (s\<lparr>tasks := filter (\<lambda>(i, r). i \<notin> fst ` set (filter (\<lambda>(i, r). state (heap s ! r) = exited \<or> inc) es))
                         (tasks s)\<rparr>,
      n + length (filter (\<lambda>(i, r). state (heap s ! r) = exited \<or> inc) es))"
proof (induction es arbitrary: s n)
  case Nil
  then show ?case by simp
next
  case (Cons e es)
  obtain i r where e: "e = (i, r)" by (cases e) auto
  show ?case
  proof (cases "state (heap s ! r) = exited \<or> inc")
    case True
    have f: "filter (\<lambda>(j, r). j \<notin> A) (AList.delete i xs) = filter (\<lambda>(j, r). j \<notin> insert i A) xs"
      for A and xs :: "(string \<times> nat) list"
      by (induction xs) auto
    show ?thesis
      using True by (simp add: e Cons.IH f)
  next
    case False
    then have "prune_loop inc (e # es) s n = prune_loop inc es s n"
      by (simp add: e)
    also note Cons.IH [of s n]
    finally show ?thesis using False by (simp add: e)
  qed
qed

lemma keyed_filter:
  assumes "distinct (map fst xs)"
  shows "filter (\<lambda>(i, r). i \<notin> fst ` set (filter P xs)) xs = filter (\<lambda>x. \<not> P x) xs"
proof (rule filter_cong [OF refl])
  fix x assume x: "x \<in> set xs"
  obtain i r where ir: "x = (i, r)" by (cases x) auto
  have "i \<in> fst ` set (filter P xs) \<longleftrightarrow> P (i, r)"
  proof
    assume "i \<in> fst ` set (filter P xs)"
    then obtain r' where r': "(i, r') \<in> set xs" "P (i, r')" by auto
    have "r' = r"
      using assms r'(1) x ir by (meson eq_key_imp_eq_value)
    then show "P (i, r)" using r' by simp
  next
    assume "P (i, r)"
    then show "i \<in> fst ` set (filter P xs)" using x ir by force
  qed
  then show "(case x of (i, r) \<Rightarrow> i \<notin> fst ` set (filter P xs)) = (\<not> P x)"
    by (simp add: ir)
qed

lemma task_prune_eq:
  assumes "distinct (map fst (tasks s))"
  shows "task_prune includeRunning s =
     (Resolved (Inr (okJson (JObj
        [(''removed'', JNum (int (length (filter (\<lambda>(i, r). state (heap s ! r) = exited \<or> includeRunning = Some True) (tasks s))))),
         (''remaining'', JNum (int (length (filter (\<lambda>(i, r). \<not> (state (heap s ! r) = exited \<or> includeRunning = Some True)) (tasks s)))))]))),
      s\<lparr>tasks := filter (\<lambda>(i, r). \<not> (state (heap s ! r) = exited \<or> includeRunning = Some True)) (tasks s)\<rparr>)"
proof -
  have "filter (\<lambda>(i, r). i \<notin> fst ` set (filter (\<lambda>(i, r). state (heap s ! r) = exited \<or> includeRunning = Some True) (tasks s))) (tasks s)
        = filter (\<lambda>x. \<not> (case x of (i, r) \<Rightarrow> state (heap s ! r) = exited \<or> includeRunning = Some True)) (tasks s)"
    by (rule keyed_filter [OF assms])
  also have "\<dots> = filter (\<lambda>(i, r). \<not> (state (heap s ! r) = exited \<or> includeRunning = Some True)) (tasks s)"
    by (rule filter_cong) auto
  finally show ?thesis
    by (simp add: task_prune_def prune_loop_eq)
qed

lemma task_prune_frame:
  "heap (snd (task_prune inc s)) = heap s"
  "sent (snd (task_prune inc s)) = sent s"
  "calls (snd (task_prune inc s)) = calls s"
  "invoked (snd (task_prune inc s)) = invoked s"
  "exit_runs (snd (task_prune inc s)) = exit_runs s"
  "\<exists>P. tasks (snd (task_prune inc s)) = filter P (tasks s)"
  by (auto simp: task_prune_def prune_loop_eq)

lemma task_start_new_accounted:
  "accounted \<lparr>id_task = i, name = a, command = b, args = c,
                    cwd = d, env = e, createdAt = f,
                    proc = r, pid = g, state = running,
                    exitCode = None, signal = None,
                    maxLogBytes = m,
                    logBytes = 0, logs = [], waiters = []\<rparr>"
  by (simp add: accounted_def log_cost_def)

lemma handler_frame:
  "heap_evolved (heap s) (heap (snd (handler rt orc c q s)))"
  "calls (snd (handler rt orc c q s)) = calls s"
  "invoked (snd (handler rt orc c q s)) = invoked s"
  "exit_runs (snd (handler rt orc c q s)) = exit_runs s"
proof -
  show "heap_evolved (heap s) (heap (snd (handler rt orc c q s)))"
  proof (cases q)
    case (Task_start p)
    then show ?thesis
      by (simp add: handler_def task_start_def Let_def heap_evolved_append task_start_new_accounted
            split: option.splits)
  next
    case (Task_stop i tmo)
    then show ?thesis
      by (simp add: handler_def task_stop_def Let_def heap_evolved_update split: sum.splits)
  next
    case (Task_wait i tmo)
    then show ?thesis
      by (simp add: handler_def task_wait_def Let_def heap_evolved_update split: sum.splits option.splits)
  next
    case (Task_prune inc)
    then show ?thesis by (simp add: handler_def task_prune_frame)
  qed (simp_all add: handler_def task_status_def task_list_def task_logs_def task_write_def
          task_signal_def Let_def split: sum.splits)
  show "calls (snd (handler rt orc c q s)) = calls s"
    by (cases q)
       (simp_all add: handler_def task_start_def task_status_def task_list_def task_logs_def
          task_write_def task_signal_def task_stop_def task_wait_def task_prune_frame Let_def
          split: sum.splits option.splits)
  show "invoked (snd (handler rt orc c q s)) = invoked s"
    by (cases q)
       (simp_all add: handler_def task_start_def task_status_def task_list_def task_logs_def
          task_write_def task_signal_def task_stop_def task_wait_def task_prune_frame Let_def
          split: sum.splits option.splits)
  show "exit_runs (snd (handler rt orc c q s)) = exit_runs s"
    by (cases q)
       (simp_all add: handler_def task_start_def task_status_def task_list_def task_logs_def
          task_write_def task_signal_def task_stop_def task_wait_def task_prune_frame Let_def
          split: sum.splits option.splits)
qed

lemma invoke_fields:
  "heap (invoke rt orc q s) =
     (if schema_ok q then heap (snd (handler rt orc (length (calls s)) q s)) else heap s)"
  "tasks (invoke rt orc q s) =
     (if schema_ok q then tasks (snd (handler rt orc (length (calls s)) q s)) else tasks s)"
  "sent (invoke rt orc q s) =
     (if schema_ok q then sent (snd (handler rt orc (length (calls s)) q s)) else sent s)"
  "calls (invoke rt orc q s) =
     calls s @ [if schema_ok q then fst (handler rt orc (length (calls s)) q s)
                else Resolved (Inl InvalidParams)]"
  "invoked (invoke rt orc q s) = invoked s"
  "exit_runs (invoke rt orc q s) = exit_runs s"
  by (simp_all add: invoke_def case_prod_beta handler_frame)

lemma step_heap_evolved: "heap_evolved (heap s) (heap (step rt s e))"
proof (cases e)
  case (tool_call q orc)
  then show ?thesis by (simp add: invoke_fields handler_frame)
next
  case (data_event r strm chunk now)
  then show ?thesis by (simp add: heap_evolved_update pushLog_evolved)
next
  case (error_event r err now)
  then show ?thesis by (simp add: on_error_def heap_evolved_update pushLog_evolved)
next
  case (exit_event r code sig)
  then show ?thesis by (simp add: heap_evolved_update)
next
  case (timer_event tm)
  then show ?thesis by (simp add: fire_timer_heap)
next
  case (write_event c e)
  then show ?thesis by simp
qed

lemma run_heap_evolved: "heap_evolved (heap s) (heap (run rt s es))"
proof (induction es arbitrary: s)
  case Nil
  then show ?case by simp
next
  case (Cons e es)
  show ?case
    using step_heap_evolved [of s rt e] Cons.IH [of "step rt s e"]
    by (auto intro: heap_evolved_trans)
qed

lemma run_append: "run rt s (es @ fs) = run rt (run rt s es) fs"
  by (induction es arbitrary: s) auto

section \<open>The claims about the log buffer\<close>

lemma all_accounted: "r < length (heap (run rt init_sys es)) \<Longrightarrow> accounted (heap (run rt init_sys es) ! r)"
  using run_heap_evolved [of "init_sys" rt es]
  by (simp add: heap_evolved_def init_sys_def)

text \<open>
  C1. \<open>logBytes\<close> equals the sum, over the items retained, of the UTF-8 byte length of the
  text plus 16: \<open>pushLog\<close> keeps the equality, one eviction removes the oldest item and
  subtracts exactly its contribution, and the equality holds for every task of every state
  the server reaches from its start, whatever the events.
\<close>

theorem logBytes_exact:
  "(accounted task \<longrightarrow> accounted (pushLog rt task strm chunk now)) \<and>
   (accounted task \<and> logs task = old # rest \<longrightarrow>
      logs (evict_one task) = rest \<and>
      logBytes (evict_one task) = logBytes task - (byteLength (text' old) + 16) \<and>
      accounted (evict_one task)) \<and>
   (\<forall>r < length (heap (run rt init_sys es)). accounted (heap (run rt init_sys es) ! r))"
proof (intro conjI impI allI)
  assume "accounted task"
  then show "accounted (pushLog rt task strm chunk now)"
    by (simp add: accounted_def pushLog_accounted)
next
  assume a: "accounted task \<and> logs task = old # rest"
  then show "logs (evict_one task) = rest"
    and "logBytes (evict_one task) = logBytes task - (byteLength (text' old) + 16)"
    by (simp_all add: evict_one_def)
  show "accounted (evict_one task)"
    using a by (simp add: accounted_def evict_one_accounted)
next
  fix r assume "r < length (heap (run rt init_sys es))"
  then show "accounted (heap (run rt init_sys es) ! r)" by (rule all_accounted)
qed

lemma task0_push:
  "pushLog rt0 task0 stderr ''four'' 2 =
     task0\<lparr>logs := [\<lparr>t = 2, stream = stderr, text' = ''four''\<rparr>], logBytes := 20\<rparr>"
  by (simp add: pushLog_def rt0_def task0_def Let_def evict.simps evict_one_def byteLength_def)

lemma run0:
  "heap (run rt0 init_sys [tool_call (Task_start params0) out0, data_event 0 stdout ''hello'' 3]) =
     [\<lparr>id_task = ''a'', name = None, command = ''sh'', args = [],
            cwd = None, env = None, createdAt = 0, proc = 0, pid = 7, state = running,
            exitCode = None, signal = None, maxLogBytes = 1024, logBytes = 21,
            logs = [\<lparr>t = 3, stream = stdout, text' = ''hello''\<rparr>], waiters = []\<rparr>]"
  by (simp add: init_sys_def invoke_def schema_ok_def at_least_def params0_def out0_def handler_def
        task_start_def Let_def on_data_def pushLog_def rt0_def evict.simps byteLength_def)

text \<open>An instance with an eviction, and a run of the server with one task and one chunk.\<close>

theorem logBytes_exact_witness:
  "accounted task0 \<and> logs task0 = [\<lparr>t = 1, stream = stdout, text' = ''one''\<rparr>] \<and>
   logBytes task0 = 19 \<and>
   logs (pushLog rt0 task0 stderr ''four'' 2) = [\<lparr>t = 2, stream = stderr, text' = ''four''\<rparr>] \<and>
   logBytes (pushLog rt0 task0 stderr ''four'' 2) = 20 \<and>
   accounted (pushLog rt0 task0 stderr ''four'' 2) \<and>
   logs (evict_one task0) = [] \<and> logBytes (evict_one task0) = 0 \<and> accounted (evict_one task0) \<and>
   (0::nat) < length (heap (run rt0 init_sys [tool_call (Task_start params0) out0, data_event 0 stdout ''hello'' 3])) \<and>
   accounted (heap (run rt0 init_sys [tool_call (Task_start params0) out0, data_event 0 stdout ''hello'' 3]) ! 0)"
proof -
  have a: "accounted task0"
    by (simp add: accounted_def task0_def log_cost_def item_cost_def byteLength_def)
  have l: "logs task0 = [\<lparr>t = 1, stream = stdout, text' = ''one''\<rparr>]" "logBytes task0 = 19"
    by (simp_all add: task0_def)
  have n: "(0::nat) < length (heap (run rt0 init_sys [tool_call (Task_start params0) out0, data_event 0 stdout ''hello'' 3]))"
    by (subst run0) simp
  note th = logBytes_exact [of task0 rt0 stderr "''four''" 2 "\<lparr>t = 1, stream = stdout, text' = ''one''\<rparr>" "[]"
      "[tool_call (Task_start params0) out0, data_event 0 stdout ''hello'' 3]"]
  have e: "accounted (heap (run rt0 init_sys [tool_call (Task_start params0) out0, data_event 0 stdout ''hello'' 3]) ! 0)"
    using th n by blast
  have p: "accounted (pushLog rt0 task0 stderr ''four'' 2)"
    using th a by blast
  have v: "logs (evict_one task0) = [] \<and> logBytes (evict_one task0) = 0 \<and> accounted (evict_one task0)"
    using th a l by (simp add: byteLength_def)
  show ?thesis
    using a l n e p v by (simp add: task0_push)
qed

text \<open>
  C2. After \<open>pushLog\<close>, \<open>logBytes\<close> is at most \<open>maxLogBytes\<close> (which it does not change) or
  the buffer is empty; the items retained are a suffix of the former items followed by the
  new one, and after a sequence of chunks a suffix of the former items followed by all the
  new ones.
\<close>

theorem pushLog_within_budget:
  "(logBytes (pushLog rt task strm chunk now) \<le> maxLogBytes (pushLog rt task strm chunk now) \<or>
      logs (pushLog rt task strm chunk now) = []) \<and>
   maxLogBytes (pushLog rt task strm chunk now) = maxLogBytes task \<and>
   suffix (logs (pushLog rt task strm chunk now))
          (logs task @ [\<lparr>t = now, stream = strm, text' = toString_utf8 rt chunk\<rparr>]) \<and>
   suffix (logs (pushLogs rt task cs)) (logs task @ map (item_of rt) cs)"
proof -
  have m: "maxLogBytes (pushLog rt task strm chunk now) = maxLogBytes task"
    by (subst pushLog_keeps) simp
  show ?thesis
    using pushLog_bounded [of rt task strm chunk now] pushLog_suffix [of rt task strm chunk now]
      pushLogs_suffix [of rt task cs]
    unfolding m by blast
qed

text \<open>An instance in which the older of two items is evicted.\<close>

theorem pushLog_within_budget_witness:
  "logBytes (pushLog rt0 task0 stderr ''four'' 2) = 20 \<and>
   maxLogBytes (pushLog rt0 task0 stderr ''four'' 2) = 30 \<and>
   logs (pushLog rt0 task0 stderr ''four'' 2) = [\<lparr>t = 2, stream = stderr, text' = ''four''\<rparr>] \<and>
   suffix (logs (pushLog rt0 task0 stderr ''four'' 2))
          (logs task0 @ [\<lparr>t = 2, stream = stderr, text' = ''four''\<rparr>]) \<and>
   suffix (logs (pushLogs rt0 task0 [(stderr, ''four'', 2)]))
          (logs task0 @ [\<lparr>t = 2, stream = stderr, text' = ''four''\<rparr>])"
proof -
  note th = pushLog_within_budget [of rt0 task0 stderr "''four''" 2 "[(stderr, ''four'', 2)]"]
  have i: "map (item_of rt0) [(stderr, ''four'', 2)] = [\<lparr>t = 2, stream = stderr, text' = ''four''\<rparr>]"
    and d: "toString_utf8 rt0 ''four'' = ''four''"
    by (simp_all add: item_of_def rt0_def)
  have "suffix (logs (pushLog rt0 task0 stderr ''four'' 2))
          (logs task0 @ [\<lparr>t = 2, stream = stderr, text' = ''four''\<rparr>])"
   and "suffix (logs (pushLogs rt0 task0 [(stderr, ''four'', 2)]))
          (logs task0 @ [\<lparr>t = 2, stream = stderr, text' = ''four''\<rparr>])"
    using th unfolding i d by blast+
  moreover have "logBytes (pushLog rt0 task0 stderr ''four'' 2) = 20"
    and "maxLogBytes (pushLog rt0 task0 stderr ''four'' 2) = 30"
    and "logs (pushLog rt0 task0 stderr ''four'' 2) = [\<lparr>t = 2, stream = stderr, text' = ''four''\<rparr>]"
    by (simp_all add: task0_push) (simp add: task0_def)
  ultimately show ?thesis by blast
qed

section \<open>The registry along a run\<close>

lemma registry_ok_heap:
  assumes "registry_ok s" and "tasks s' = tasks s" and "heap_evolved (heap s) (heap s')"
  shows "registry_ok s'"
  using assms
  by (auto simp: registry_ok_def heap_evolved_def task_evolved_def list_all_iff)

lemma registry_ok_filter:
  assumes "registry_ok s" and "tasks s' = filter P (tasks s)" and "heap s' = heap s"
  shows "registry_ok s'"
  using assms
  by (auto simp: registry_ok_def list_all_iff distinct_map_filter)

lemma set_update_subset: "set (AList.update k v al) \<subseteq> insert (k, v) (set al)"
  by (induction al) auto

lemma registry_ok_start:
  assumes "registry_ok s" and "id_task x = i"
  shows "registry_ok (s\<lparr>heap := heap s @ [x], tasks := AList.update i (length (heap s)) (tasks s)\<rparr>)"
proof -
  have "\<And>j r. (j, r) \<in> set (AList.update i (length (heap s)) (tasks s)) \<Longrightarrow>
          r < length (heap s @ [x]) \<and> id_task ((heap s @ [x]) ! r) = j"
  proof -
    fix j r assume "(j, r) \<in> set (AList.update i (length (heap s)) (tasks s))"
    then have "(j, r) = (i, length (heap s)) \<or> (j, r) \<in> set (tasks s)"
      using set_update_subset [of i "length (heap s)" "tasks s"] by auto
    then show "r < length (heap s @ [x]) \<and> id_task ((heap s @ [x]) ! r) = j"
      using assms by (auto simp: registry_ok_def list_all_iff nth_append)
  qed
  then show ?thesis
    using assms(1) by (auto simp: registry_ok_def list_all_iff distinct_update)
qed

lemma handler_registry_ok:
  assumes "registry_ok s"
  shows "registry_ok (snd (handler rt orc c q s))"
proof (cases q)
  case (Task_start p)
  then show ?thesis
    using assms by (simp add: handler_def task_start_def Let_def registry_ok_start split: option.splits)
next
  case (Task_prune inc)
  obtain P where "tasks (snd (task_prune inc s)) = filter P (tasks s)"
    using task_prune_frame(6) by blast
  then show ?thesis
    using assms Task_prune by (simp add: handler_def registry_ok_filter task_prune_frame)
next
  case (Task_stop i tmo)
  have "tasks (snd (task_stop c i tmo s)) = tasks s"
    by (simp add: task_stop_def Let_def split: sum.splits)
  then show ?thesis
    using assms Task_stop handler_frame(1) [of s rt orc c q]
    by (auto intro: registry_ok_heap simp: handler_def)
next
  case (Task_wait i tmo)
  have "tasks (snd (task_wait c i tmo s)) = tasks s"
    by (simp add: task_wait_def Let_def split: sum.splits option.splits)
  then show ?thesis
    using assms Task_wait handler_frame(1) [of s rt orc c q]
    by (auto intro: registry_ok_heap simp: handler_def)
qed (use assms in \<open>simp_all add: handler_def task_status_def task_list_def task_logs_def
        task_write_def task_signal_def Let_def registry_ok_def split: sum.splits\<close>)

lemma calls_irrelevant [simp]: "registry_ok (s\<lparr>calls := cs\<rparr>) = registry_ok s"
  by (simp add: registry_ok_def)

lemma step_registry_ok:
  assumes "registry_ok s"
  shows "registry_ok (step rt s e)"
proof (cases e)
  case (tool_call q orc)
  then show ?thesis
    using assms handler_registry_ok [OF assms, of rt orc "length (calls s)" q]
    by (simp add: invoke_def case_prod_beta)
qed (use assms step_heap_evolved [of s rt e] in \<open>auto intro: registry_ok_heap simp: on_error_def\<close>)

lemma run_registry_ok: "registry_ok s \<Longrightarrow> registry_ok (run rt s es)"
  by (induction es arbitrary: s) (auto simp: step_registry_ok)

lemma init_registry_ok: "registry_ok init_sys"
  by (simp add: registry_ok_def init_sys_def)

lemma reachable_registry_ok: "registry_ok (run rt init_sys es)"
  by (rule run_registry_ok [OF init_registry_ok])

section \<open>The claims about single tool invocations\<close>

lemma last_n_drop: "last_n n xs = drop (length xs - n) xs"
  by (simp add: last_n_def rev_take)

lemma slice_tail:
  assumes "0 \<le> n"
  shows "slice_from xs (max 0 (int (length xs) - n)) = last_n (min (nat n) (length xs)) xs"
proof -
  have "nat (min (max 0 (int (length xs) - n)) (int (length xs))) = length xs - min (nat n) (length xs)"
    using assms by linarith
  then show ?thesis
    by (simp add: slice_from_def Let_def last_n_drop)
qed

lemma slice_offset:
  assumes "0 \<le> k"
  shows "slice_from xs k = drop (nat k) xs"
proof (cases "k \<le> int (length xs)")
  case True
  then show ?thesis using assms by (simp add: slice_from_def Let_def min_def)
next
  case False
  then show ?thesis using assms by (simp add: slice_from_def Let_def min_def)
qed

lemma getTask_Some: "map_of (tasks s) i = Some r \<Longrightarrow> getTask s i = Inr r"
  by (simp add: getTask_def)

lemma getTask_None: "map_of (tasks s) i = None \<Longrightarrow> getTask s i = Inl (Error (''Task not found: '' @ i))"
  by (simp add: getTask_def)

text \<open>
  C5. On a registered task and arguments that pass the schema, \<open>task_logs\<close> selects the last
  \<open>tail\<close> items (no more than there are) when \<open>tail\<close> is given, also when \<open>offset\<close> is given
  too; the items from index \<open>offset\<close> to the end when only \<open>offset\<close> is given; all items
  otherwise. Its result reports the number of items retained and the number selected, with
  or without timestamps in the text.
\<close>

theorem task_logs_selection:
  assumes "map_of (tasks s) i = Some r" and "schema_ok (Task_logs i offset tail ts)"
  shows "task_logs rt i offset tail ts s =
     (Resolved (Inr (okJson (JObj
        [(''id'', JStr i),
         (''state'', state_json (state (heap s ! r))),
         (''pid'', JNum (pid (heap s ! r))),
         (''exitCode'', num_or_null (exitCode (heap s ! r))),
         (''signal'', str_or_null (signal (heap s ! r))),
         (''logItemCount'', JNum (int (length (logs (heap s ! r))))),
         (''returnedCount'', JNum (int (length (selected offset tail (logs (heap s ! r)))))),
         (''text'', JStr
            (if ts = Some False
             then concat (map (\<lambda>i. ''['' @ stream_name (stream i) @ ''] '' @ text' i)
                    (selected offset tail (logs (heap s ! r))))
             else formatLogs rt (selected offset tail (logs (heap s ! r)))))]))),
      s)"
proof -
  have sel: "(case tail of
               Some n \<Rightarrow> slice_from (logs (heap s ! r)) (max 0 (int (length (logs (heap s ! r))) - n))
             | None \<Rightarrow> (case offset of Some k \<Rightarrow> slice_from (logs (heap s ! r)) k
                                      | None \<Rightarrow> logs (heap s ! r)))
             = selected offset tail (logs (heap s ! r))"
  proof (cases tail)
    case None
    then show ?thesis
      using assms(2)
      by (auto simp: schema_ok_def at_least_def selected_def slice_offset split: option.splits)
  next
    case (Some n)
    then have "0 \<le> n"
      using assms(2) by (simp add: schema_ok_def at_least_def)
    then show ?thesis
      by (simp add: Some selected_def slice_tail)
  qed
  show ?thesis
    using sel
    by (cases ts) (simp_all add: task_logs_def getTask_Some [OF assms(1)] Let_def)
qed

text \<open>Three items: the last two with \<open>tail = 2\<close> (and an offset that is ignored).\<close>

theorem task_logs_selection_witness:
  "map_of (tasks sys0) ''a'' = Some 0 \<and> schema_ok (Task_logs ''a'' (Some 0) (Some 2) None) \<and>
   task_logs rt0 ''a'' (Some 0) (Some 2) None sys0 =
     (Resolved (Inr (okJson (JObj
        [(''id'', JStr ''a''), (''state'', JStr ''running''), (''pid'', JNum 7),
         (''exitCode'', JNull), (''signal'', JNull),
         (''logItemCount'', JNum 3), (''returnedCount'', JNum 2),
         (''text'', JStr ''T [stderr] twoT [stdout] three'')]))),
      sys0)"
proof -
  have a: "map_of (tasks sys0) ''a'' = Some 0"
    by (simp add: sys0_def)
  have b: "schema_ok (Task_logs ''a'' (Some 0) (Some 2) None)"
    by (simp add: schema_ok_def at_least_def)
  have c: "selected (Some 0) (Some 2) (logs (heap sys0 ! 0)) =
             [\<lparr>t = 2, stream = stderr, text' = ''two''\<rparr>, \<lparr>t = 3, stream = stdout, text' = ''three''\<rparr>]"
    by (simp add: selected_def last_n_def sys0_def task0_def)
  show ?thesis
    using task_logs_selection [OF a b, of rt0] a b unfolding c
    by (simp add: sys0_def task0_def state_json_def num_or_null_def str_or_null_def
          formatLogs_def rt0_def stream_name_def)
qed

text \<open>
  C7. When \<open>spawn\<close> gives no process id, \<open>task_start\<close> throws at once and leaves the whole
  state, registry included, as it was; and whenever \<open>task_start\<close> fails the state is
  unchanged.
\<close>

theorem task_start_failure:
  "(spawn_pid orc = None \<or> spawn_pid orc = Some 0 \<longrightarrow>
      task_start orc p s = (Resolved (Inl (Error ''Failed to start process (no pid)'')), s)) \<and>
   (fst (task_start orc p s) = Resolved (Inl e) \<longrightarrow>
      snd (task_start orc p s) = s \<and> tasks (snd (task_start orc p s)) = tasks s) \<and>
   (\<forall>k. fst (task_start orc p s) \<noteq> Awaiting k)"
  by (auto simp: task_start_def Let_def split: option.splits)

theorem task_start_failure_witness:
  "spawn_pid (out0\<lparr>spawn_pid := None\<rparr>) = None \<and>
   task_start (out0\<lparr>spawn_pid := None\<rparr>) params0 sys0 =
     (Resolved (Inl (Error ''Failed to start process (no pid)'')), sys0) \<and>
   fst (task_start (out0\<lparr>spawn_pid := None\<rparr>) params0 sys0) =
     Resolved (Inl (Error ''Failed to start process (no pid)'')) \<and>
   snd (task_start (out0\<lparr>spawn_pid := None\<rparr>) params0 sys0) = sys0 \<and>
   tasks (snd (task_start (out0\<lparr>spawn_pid := None\<rparr>) params0 sys0)) = [(''a'', 0), (''b'', 1)]"
proof -
  have a: "spawn_pid (out0\<lparr>spawn_pid := None\<rparr>) = None" by simp
  have b: "task_start (out0\<lparr>spawn_pid := None\<rparr>) params0 sys0 =
     (Resolved (Inl (Error ''Failed to start process (no pid)'')), sys0)"
    using task_start_failure [of "out0\<lparr>spawn_pid := None\<rparr>" params0 sys0] a by blast
  show ?thesis
    unfolding b using a by (simp add: sys0_def)
qed

text \<open>
  C8. For an id that is not in the registry, \<open>task_status\<close> and every other tool that takes
  an id throw \<open>Task not found\<close> and change nothing; \<open>task_write\<close> on a registered task that has
  exited throws \<open>Task is not running\<close> and changes nothing, so nothing is written to stdin.
\<close>

theorem not_found_and_not_running:
  "(map_of (tasks s) i = None \<longrightarrow>
      task_status i s = (Resolved (Inl (Error (''Task not found: '' @ i))), s) \<and>
      task_logs rt i offset tail ts s = (Resolved (Inl (Error (''Task not found: '' @ i))), s) \<and>
      task_write i data nl s = (Resolved (Inl (Error (''Task not found: '' @ i))), s) \<and>
      task_signal rt orc i sig s = (Resolved (Inl (Error (''Task not found: '' @ i))), s) \<and>
      task_stop c i tmo s = (Resolved (Inl (Error (''Task not found: '' @ i))), s) \<and>
      task_wait c i tmo s = (Resolved (Inl (Error (''Task not found: '' @ i))), s)) \<and>
   (map_of (tasks s) i = Some r \<and> state (heap s ! r) = exited \<longrightarrow>
      task_write i data nl s = (Resolved (Inl (Error ''Task is not running'')), s) \<and>
      sent (snd (task_write i data nl s)) = sent s)"
  by (auto simp: getTask_None getTask_Some task_status_def task_logs_def task_write_def
        task_signal_def task_stop_def task_wait_def)

theorem not_found_and_not_running_witness:
  "map_of (tasks sys0) ''zz'' = None \<and>
   task_status ''zz'' sys0 = (Resolved (Inl (Error ''Task not found: zz'')), sys0) \<and>
   task_stop 0 ''zz'' None sys0 = (Resolved (Inl (Error ''Task not found: zz'')), sys0) \<and>
   map_of (tasks sys0) ''b'' = Some 1 \<and> state (heap sys0 ! 1) = exited \<and>
   task_write ''b'' ''x'' None sys0 = (Resolved (Inl (Error ''Task is not running'')), sys0) \<and>
   sent (snd (task_write ''b'' ''x'' None sys0)) = []"
proof -
  have a: "map_of (tasks sys0) ''zz'' = None"
    and b: "map_of (tasks sys0) ''b'' = Some 1 \<and> state (heap sys0 ! 1) = exited"
    by (simp_all add: sys0_def)
  note th1 = not_found_and_not_running [of sys0 "''zz''" rt0 None None None "''x''" None out0 "''SIGINT''" 0 None 1]
  note th2 = not_found_and_not_running [of sys0 "''b''" rt0 None None None "''x''" None out0 "''SIGINT''" 0 None 1]
  have "task_status ''zz'' sys0 = (Resolved (Inl (Error ''Task not found: zz'')), sys0)"
    and "task_stop 0 ''zz'' None sys0 = (Resolved (Inl (Error ''Task not found: zz'')), sys0)"
    using th1 a by simp_all
  moreover have "task_write ''b'' ''x'' None sys0 = (Resolved (Inl (Error ''Task is not running'')), sys0)"
    and "sent (snd (task_write ''b'' ''x'' None sys0)) = sent sys0"
    using th2 b by blast+
  moreover have "sent sys0 = []" by (simp add: sys0_def)
  ultimately show ?thesis using a b by simp
qed

text \<open>
  C9. On a registered task that is not running, \<open>task_signal\<close> returns the text
  \<open>not running\<close> and does nothing. On a running one, for a signal name that \<open>proc.kill\<close>
  knows, it calls \<open>proc.kill\<close> with that name and returns the boolean the call returned,
  with the id, the pid and the signal name; for a name that \<open>proc.kill\<close> does not know
  the call throws, the tool fails with \<open>Unknown signal\<close> and nothing is sent.
\<close>

theorem task_signal_result:
  assumes "map_of (tasks s) i = Some r"
  shows "(state (heap s ! r) \<noteq> running \<longrightarrow>
            task_signal rt orc i sig s = (Resolved (Inr (okText ''not running'')), s)) \<and>
         (state (heap s ! r) = running \<and> kill_accepts rt sig \<longrightarrow>
            task_signal rt orc i sig s =
              (Resolved (Inr (okJson (JObj
                 [(''ok'', JBool (kill_result orc)), (''id'', JStr i),
                  (''pid'', JNum (pid (heap s ! r))), (''signal'', JStr sig)]))),
               s\<lparr>sent := sent s @ [kill (proc (heap s ! r)) sig]\<rparr>)) \<and>
         (state (heap s ! r) = running \<and> \<not> kill_accepts rt sig \<longrightarrow>
            task_signal rt orc i sig s = (Resolved (Inl (Error (''Unknown signal: '' @ sig))), s))"
  by (simp add: task_signal_def getTask_Some [OF assms] Let_def)

text \<open>A known signal to the running task, any signal to the exited one, an unknown name.\<close>

theorem task_signal_result_witness:
  "map_of (tasks sys0) ''a'' = Some 0 \<and> state (heap sys0 ! 0) = running \<and>
   kill_accepts rt0 ''SIGINT'' \<and>
   task_signal rt0 out0 ''a'' ''SIGINT'' sys0 =
     (Resolved (Inr (okJson (JObj
        [(''ok'', JBool True), (''id'', JStr ''a''), (''pid'', JNum 7), (''signal'', JStr ''SIGINT'')]))),
      sys0\<lparr>sent := [kill 0 ''SIGINT'']\<rparr>) \<and>
   map_of (tasks sys0) ''b'' = Some 1 \<and> state (heap sys0 ! 1) \<noteq> running \<and>
   task_signal rt0 out0 ''b'' ''SIGINT'' sys0 = (Resolved (Inr (okText ''not running'')), sys0) \<and>
   \<not> kill_accepts rt0 ''SIGNOPE'' \<and>
   task_signal rt0 out0 ''a'' ''SIGNOPE'' sys0 =
     (Resolved (Inl (Error ''Unknown signal: SIGNOPE'')), sys0)"
proof -
  have a: "map_of (tasks sys0) ''a'' = Some 0" and a': "state (heap sys0 ! 0) = running"
    and b: "map_of (tasks sys0) ''b'' = Some 1" and b': "state (heap sys0 ! 1) \<noteq> running"
    by (simp_all add: sys0_def task0_def)
  have k: "kill_accepts rt0 ''SIGINT''" and n: "\<not> kill_accepts rt0 ''SIGNOPE''"
    by (simp_all add: kill_accepts_def rt0_def)
  have "task_signal rt0 out0 ''a'' ''SIGINT'' sys0 =
     (Resolved (Inr (okJson (JObj
        [(''ok'', JBool (kill_result out0)), (''id'', JStr ''a''), (''pid'', JNum (pid (heap sys0 ! 0))),
         (''signal'', JStr ''SIGINT'')]))),
      sys0\<lparr>sent := sent sys0 @ [kill (proc (heap sys0 ! 0)) ''SIGINT'']\<rparr>)"
    using task_signal_result [OF a, where rt = rt0 and orc = out0 and sig = "''SIGINT''",
        THEN conjunct2, THEN conjunct1] a' k by blast
  moreover have "task_signal rt0 out0 ''b'' ''SIGINT'' sys0 = (Resolved (Inr (okText ''not running'')), sys0)"
    using task_signal_result [OF b, where rt = rt0 and orc = out0 and sig = "''SIGINT''",
        THEN conjunct1] b' by blast
  moreover have "task_signal rt0 out0 ''a'' ''SIGNOPE'' sys0 =
     (Resolved (Inl (Error (''Unknown signal: '' @ ''SIGNOPE''))), sys0)"
    using task_signal_result [OF a, where rt = rt0 and orc = out0 and sig = "''SIGNOPE''",
        THEN conjunct2, THEN conjunct2] a' n by blast
  moreover have "kill_result out0 = True" "pid (heap sys0 ! 0) = 7" "proc (heap sys0 ! 0) = 0"
    "sent sys0 = []"
    by (simp_all add: out0_def sys0_def task0_def)
  ultimately show ?thesis using a a' b b' k n by simp
qed

text \<open>
  The signal name \<open>BOGUS\<close> passes the schema (any string does). On the running task ''a''
  the tool then does not return the boolean of a delivery with pid and signal name: the
  call of \<open>proc.kill\<close> throws, the result is an error and nothing is sent.
\<close>

theorem task_signal_unknown_name:
  "schema_ok (Task_signal ''a'' ''BOGUS'') \<and>
   map_of (tasks sys0) ''a'' = Some 0 \<and> state (heap sys0 ! 0) = running \<and>
   fst (task_signal rt0 out0 ''a'' ''BOGUS'' sys0) = Resolved (Inl (Error ''Unknown signal: BOGUS'')) \<and>
   fst (task_signal rt0 out0 ''a'' ''BOGUS'' sys0) \<noteq>
     Resolved (Inr (okJson (JObj
        [(''ok'', JBool (kill_result out0)), (''id'', JStr ''a''),
         (''pid'', JNum (pid (heap sys0 ! 0))), (''signal'', JStr ''BOGUS'')]))) \<and>
   sent (snd (task_signal rt0 out0 ''a'' ''BOGUS'' sys0)) = []"
  by (simp add: schema_ok_def task_signal_def getTask_def kill_accepts_def rt0_def sys0_def
        task0_def)

text \<open>
  C10. \<open>task_prune\<close> on a registry with distinct keys (every \<open>Map\<close> has them, and so has every
  state the server reaches): the two counts add up to the number of tasks registered
  before; the tasks removed are those that have exited, and all of them when
  \<open>includeRunning\<close> is true; without \<open>includeRunning\<close> every running task stays; nothing is
  sent to any process and no task object changes.
\<close>

theorem task_prune_counts:
  "(distinct (map fst (tasks s)) \<longrightarrow>
      (\<exists>removed remaining s'.
          task_prune includeRunning s =
            (Resolved (Inr (okJson (JObj
               [(''removed'', JNum (int removed)), (''remaining'', JNum (int remaining))]))), s') \<and>
          removed + remaining = length (tasks s) \<and>
          remaining = length (tasks s') \<and>
          tasks s' = filter (\<lambda>(i, r). \<not> (state (heap s ! r) = exited \<or> includeRunning = Some True))
                       (tasks s) \<and>
          (includeRunning \<noteq> Some True \<longrightarrow>
             tasks s' = filter (\<lambda>(i, r). state (heap s ! r) = running) (tasks s)) \<and>
          sent s' = sent s \<and> heap s' = heap s)) \<and>
   distinct (map fst (tasks (run rt init_sys es)))"
proof (intro conjI impI)
  assume d: "distinct (map fst (tasks s))"
  let ?P = "\<lambda>(i, r). state (heap s ! r) = exited \<or> includeRunning = Some True"
  let ?N = "\<lambda>(i, r). \<not> (state (heap s ! r) = exited \<or> includeRunning = Some True)"
  have n: "filter ?N (tasks s) = filter (\<lambda>x. \<not> ?P x) (tasks s)"
    by (rule filter_cong) auto
  have sum: "length (filter ?P (tasks s)) + length (filter ?N (tasks s)) = length (tasks s)"
    unfolding n by (rule sum_length_filter_compl)
  have run: "includeRunning \<noteq> Some True \<Longrightarrow>
      filter ?N (tasks s) = filter (\<lambda>(i, r). state (heap s ! r) = running) (tasks s)"
    by (rule filter_cong) (auto intro: TaskState.exhaust)
  show "\<exists>removed remaining s'.
          task_prune includeRunning s =
            (Resolved (Inr (okJson (JObj
               [(''removed'', JNum (int removed)), (''remaining'', JNum (int remaining))]))), s') \<and>
          removed + remaining = length (tasks s) \<and>
          remaining = length (tasks s') \<and>
          tasks s' = filter ?N (tasks s) \<and>
          (includeRunning \<noteq> Some True \<longrightarrow>
             tasks s' = filter (\<lambda>(i, r). state (heap s ! r) = running) (tasks s)) \<and>
          sent s' = sent s \<and> heap s' = heap s"
    unfolding task_prune_eq [OF d]
    using sum run
    by (intro exI [of _ "length (filter ?P (tasks s))"] exI [of _ "length (filter ?N (tasks s))"]
          exI [of _ "s\<lparr>tasks := filter ?N (tasks s)\<rparr>"]) simp
next
  show "distinct (map fst (tasks (run rt init_sys es)))"
    using reachable_registry_ok [of rt es] by (simp add: registry_ok_def)
qed

text \<open>One running and one exited task: the exited one goes, one task remains.\<close>

theorem task_prune_counts_witness:
  "distinct (map fst (tasks sys0)) \<and> length (tasks sys0) = 2 \<and>
   task_prune None sys0 =
     (Resolved (Inr (okJson (JObj [(''removed'', JNum 1), (''remaining'', JNum 1)]))),
      sys0\<lparr>tasks := [(''a'', 0)]\<rparr>) \<and>
   (\<exists>removed remaining s'.
      task_prune None sys0 =
        (Resolved (Inr (okJson (JObj
           [(''removed'', JNum (int removed)), (''remaining'', JNum (int remaining))]))), s') \<and>
      removed + remaining = 2 \<and> sent s' = sent sys0)"
proof -
  have d: "distinct (map fst (tasks sys0))" and l: "length (tasks sys0) = 2"
    by (simp_all add: sys0_def)
  have e: "task_prune None sys0 =
     (Resolved (Inr (okJson (JObj [(''removed'', JNum 1), (''remaining'', JNum 1)]))),
      sys0\<lparr>tasks := [(''a'', 0)]\<rparr>)"
    by (simp add: task_prune_def sys0_def task0_def)
  have "\<exists>removed remaining s'.
      task_prune None sys0 =
        (Resolved (Inr (okJson (JObj
           [(''removed'', JNum (int removed)), (''remaining'', JNum (int remaining))]))), s') \<and>
      removed + remaining = 2 \<and> sent s' = sent sys0"
    using task_prune_counts [of sys0 None rt0 "[]"] d l by fastforce
  then show ?thesis using d l e by blast
qed

section \<open>The status of an invocation along a run\<close>

lemma awaiting_Some: "awaiting s c = Some k \<Longrightarrow> c < length (calls s) \<and> calls s ! c = Awaiting k"
  by (auto simp: awaiting_def split: if_splits status.splits)


lemma awaiting_eq:
  "length (calls s') = length (calls s) \<Longrightarrow> calls s' ! c = calls s ! c \<Longrightarrow> awaiting s' c = awaiting s c"
  by (simp add: awaiting_def)

lemma awaiting_upd [simp]:
  "awaiting (s\<lparr>heap := h\<rparr>) c = awaiting s c"
  "awaiting (s\<lparr>tasks := ts\<rparr>) c = awaiting s c"
  "awaiting (s\<lparr>sent := es\<rparr>) c = awaiting s c"
  "awaiting (s\<lparr>invoked := iv\<rparr>) c = awaiting s c"
  "awaiting (s\<lparr>exit_runs := xs\<rparr>) c = awaiting s c"
  "awaiting (s\<lparr>ended := ns\<rparr>) c = awaiting s c"
  "awaiting (push_waiter r w s) c = awaiting s c"
  by (simp_all add: awaiting_def)

lemma awaiting_resolve [simp]:
  "awaiting (resolve c res s) c' = (if c' = c then None else awaiting s c')"
  by (simp add: awaiting_def resolve_def)

lemma awaiting_Resolved: "c < length (calls s) \<Longrightarrow> calls s ! c = Resolved x \<Longrightarrow> awaiting s c = None"
  by (simp add: awaiting_def)

lemma awaiting_Awaiting: "c < length (calls s) \<Longrightarrow> calls s ! c = Awaiting k \<Longrightarrow> awaiting s c = Some k"
  by (simp add: awaiting_def)

text \<open>A transition that belongs to another invocation leaves the status as it is.\<close>

lemma stop_resume1_other: "c' \<noteq> c \<Longrightarrow> calls (stop_resume1 c' r b s) ! c = calls s ! c"
  by (simp add: stop_resume1_def Let_def)

lemma wait_resume_other: "c' \<noteq> c \<Longrightarrow> calls (wait_resume c' i r res s) ! c = calls s ! c"
  by (simp add: wait_resume_def split: option.splits)

lemma call_waiter_other: "waiter_call w \<noteq> c \<Longrightarrow> calls (call_waiter w r s) ! c = calls s ! c"
  by (cases w)
     (simp_all add: call_waiter_def Let_def wait_resume_other
        split: option.splits cont.splits)

lemma fire_timer_other: "timer_call tm \<noteq> c \<Longrightarrow> calls (fire_timer tm s) ! c = calls s ! c"
  by (cases tm)
     (simp_all add: fire_timer_def stop_resume1_other wait_resume_other
        split: option.splits cont.splits)

lemma write_done_other: "c' \<noteq> c \<Longrightarrow> calls (write_done c' e s) ! c = calls s ! c"
  by (simp add: write_done_def split: option.splits cont.splits)


text \<open>A result, once there, stays.\<close>

lemma call_waiter_resolved:
  assumes "awaiting s c = None"
  shows "calls (call_waiter w r s) ! c = calls s ! c"
proof (cases "waiter_call w = c")
  case True
  then show ?thesis
    using assms by (cases w) (simp_all add: call_waiter_def Let_def)
next
  case False
  then show ?thesis by (rule call_waiter_other)
qed



lemma fold_call_waiter_resolved:
  "awaiting s c = None \<Longrightarrow> calls (fold (\<lambda>w. call_waiter w r) ws s) ! c = calls s ! c"
proof (induction ws arbitrary: s)
  case Nil
  then show ?case by simp
next
  case (Cons w ws)
  have "awaiting (call_waiter w r s) c = awaiting s c"
    by (rule awaiting_eq) (simp_all add: call_waiter_resolved [OF Cons.prems])
  then have "awaiting (call_waiter w r s) c = None"
    using Cons.prems by simp
  then show ?case
    using Cons.IH [of "call_waiter w r s"] Cons.prems by (simp add: call_waiter_resolved)
qed



lemma step_calls_length: "length (calls s) \<le> length (calls (step rt s e))"
  by (cases e) (simp_all add: invoke_fields on_error_def)


section \<open>The phases of task_stop\<close>

lemma awaiting_invoke: "c < length (calls s) \<Longrightarrow> awaiting (invoke rt orc q s) c = awaiting s c"
  by (simp add: awaiting_def invoke_fields nth_append)

lemma awaiting_on_data [simp]: "awaiting (on_data rt r strm chunk now s) c = awaiting s c"
  by (simp add: awaiting_def)

lemma returned_summary_resolve:
  "c < length (calls s) \<Longrightarrow> returned_summary (resolve c (Inr (okJson (summary (heap s ! r)))) s) c r"
  by (simp add: returned_summary_def)


lemma fold_call_waiter_returned:
  assumes "returned_summary s c r"
  shows "returned_summary (fold (\<lambda>w. call_waiter w r') ws s) c r"
proof -
  have "awaiting s c = None"
    using assms by (simp add: returned_summary_def awaiting_Resolved)
  then have "calls (fold (\<lambda>w. call_waiter w r') ws s) ! c = calls s ! c"
    by (rule fold_call_waiter_resolved)
  then show ?thesis using assms by (simp add: returned_summary_def)
qed









lemma first_resolved_later:
  "awaiting s c = Some k \<Longrightarrow> first_resolved rt s (e # es) c = first_resolved rt (step rt s e) es c"
  by simp






section \<open>The first step of task_stop\<close>



lemma awaiting_last [simp]: "awaiting (s\<lparr>calls := calls s @ [Awaiting k]\<rparr>) (length (calls s)) = Some k"
  by (simp add: awaiting_def)

section \<open>Waiters along a run\<close>

lemma pushLog_waiters [simp]: "waiters (pushLog rt task strm chunk now) = waiters task"
  by (subst pushLog_keeps) simp

lemma push_nth:
  assumes "r' < length h"
  shows "waiters (h[r := (h ! r)\<lparr>waiters := waiters (h ! r) @ [w]\<rparr>] ! r') =
           (if r' = r then waiters (h ! r') @ [w] else waiters (h ! r'))"
proof (cases "r < length h")
  case True
  then show ?thesis using assms by (simp add: nth_list_update)
next
  case False
  then show ?thesis using assms by auto
qed

lemma handler_waiters:
  assumes "r' < length (heap s)"
  shows "waiters (heap (snd (handler rt orc (length (calls s)) q s)) ! r') = waiters (heap s ! r') \<or>
         (\<exists>w. waiter_call w = length (calls s) \<and>
              waiters (heap (snd (handler rt orc (length (calls s)) q s)) ! r') = waiters (heap s ! r') @ [w])"
proof (cases q)
  case (Task_start p)
  then show ?thesis
    using assms by (simp add: handler_def task_start_def Let_def nth_append split: option.splits)
next
  case (Task_stop i tmo)
  then show ?thesis
    using assms
    by (auto simp: handler_def task_stop_def Let_def push_nth split: sum.splits)
next
  case (Task_wait i tmo)
  then show ?thesis
    using assms
    by (auto simp: handler_def task_wait_def Let_def push_nth split: sum.splits option.splits)
next
  case (Task_prune inc)
  then show ?thesis by (simp add: handler_def task_prune_frame)
qed (simp_all add: handler_def task_status_def task_list_def task_logs_def task_write_def
       task_signal_def Let_def split: sum.splits)

lemma handler_new_waiters:
  assumes "length (heap s) \<le> r'" and "r' < length (heap (snd (handler rt orc c q s)))"
  shows "waiters (heap (snd (handler rt orc c q s)) ! r') = []"
proof (cases q)
  case (Task_start p)
  then show ?thesis
    using assms
    by (auto simp: handler_def task_start_def Let_def nth_append split: if_splits option.splits)
next
  case (Task_stop i tmo)
  then show ?thesis
    using assms by (auto simp: handler_def task_stop_def Let_def split: sum.splits if_splits)
next
  case (Task_wait i tmo)
  then show ?thesis
    using assms
    by (auto simp: handler_def task_wait_def Let_def split: sum.splits if_splits option.splits)
next
  case (Task_prune inc)
  then show ?thesis using assms by (simp add: handler_def task_prune_frame)
qed (use assms in \<open>simp_all add: handler_def task_status_def task_list_def task_logs_def
       task_write_def task_signal_def Let_def split: sum.splits if_splits\<close>)

lemma fire_timer_waiters:
  assumes "r' < length (heap s)"
  shows "waiters (heap (fire_timer tm s) ! r') = waiters (heap s ! r') \<or>
         (\<exists>c. tm = stop_term_timer c \<and> c < length (calls s) \<and>
              waiters (heap (fire_timer tm s) ! r') = waiters (heap s ! r') @ [stop_kill_waiter c])"
proof (cases tm)
  case (stop_term_timer c)
  show ?thesis
  proof (cases "awaiting s c")
    case None
    then show ?thesis using stop_term_timer by (simp add: fire_timer_def)
  next
    case (Some k)
    then have "c < length (calls s)" by (simp add: awaiting_Some)
    then show ?thesis
      using stop_term_timer Some assms
      by (cases k) (auto simp: fire_timer_def stop_resume1_def Let_def push_nth)
  qed
next
  case (stop_kill_timer c)
  then show ?thesis
    by (simp add: fire_timer_def split: option.splits cont.splits)
next
  case (wait_timer c)
  then show ?thesis
    by (simp add: fire_timer_def split: option.splits cont.splits)
qed

lemma step_waiters:
  assumes "r' < length (heap s)"
  shows "waiters (heap (step rt s e) ! r') = waiters (heap s ! r') \<or>
         (\<exists>w. pushed_by s e w \<and> waiters (heap (step rt s e) ! r') = waiters (heap s ! r') @ [w]) \<or>
         (\<exists>code sig. e = exit_event r' code sig \<and> waiters (heap (step rt s e) ! r') = [])"
proof (cases e)
  case (tool_call q orc)
  then show ?thesis
    using handler_waiters [OF assms, of rt orc q]
    by (auto simp: invoke_fields pushed_by_def)
next
  case (data_event r strm chunk now)
  then show ?thesis using assms by (simp add: nth_list_update)
next
  case (error_event r err now)
  then show ?thesis using assms by (simp add: on_error_def nth_list_update)
next
  case (exit_event r code sig)
  then show ?thesis using assms by (simp add: nth_list_update)
next
  case (timer_event tm)
  then show ?thesis
    using fire_timer_waiters [OF assms, of tm] by (auto simp: pushed_by_def)
next
  case (write_event c e')
  then show ?thesis by simp
qed

lemma step_new_waiters:
  assumes "length (heap s) \<le> r'" and "r' < length (heap (step rt s e))"
  shows "waiters (heap (step rt s e) ! r') = []"
proof (cases e)
  case (tool_call q orc)
  then show ?thesis
    using assms handler_new_waiters [of s r' rt orc "length (calls s)" q]
    by (simp add: invoke_fields split: if_splits)
qed (use assms in \<open>simp_all add: on_error_def split: if_splits\<close>)

lemma pushed_by_bound:
  "pushed_by s e w \<Longrightarrow> waiter_call w < length (calls (step rt s e))"
  by (cases e) (simp_all add: pushed_by_def invoke_fields)

lemma waiters_boundedD:
  "waiters_bounded s \<Longrightarrow> r < length (heap s) \<Longrightarrow> w \<in> set (waiters (heap s ! r)) \<Longrightarrow>
   waiter_call w < length (calls s)"
  using nth_mem [of r "heap s"] by (auto simp: waiters_bounded_def list_all_iff)

lemma waiters_boundedI:
  "(\<And>r w. r < length (heap s) \<Longrightarrow> w \<in> set (waiters (heap s ! r)) \<Longrightarrow>
      waiter_call w < length (calls s)) \<Longrightarrow> waiters_bounded s"
  unfolding waiters_bounded_def list_all_iff by (metis in_set_conv_nth)

lemma step_waiters_bounded:
  assumes "waiters_bounded s"
  shows "waiters_bounded (step rt s e)"
proof (rule waiters_boundedI)
  fix r w
  assume r: "r < length (heap (step rt s e))" and w: "w \<in> set (waiters (heap (step rt s e) ! r))"
  show "waiter_call w < length (calls (step rt s e))"
  proof (cases "r < length (heap s)")
    case True
    from step_waiters [OF True, of rt e] w
    consider "w \<in> set (waiters (heap s ! r))" | "pushed_by s e w"
      by auto
    then show ?thesis
    proof cases
      case 1
      then have "waiter_call w < length (calls s)"
        using assms True by (simp add: waiters_boundedD)
      then show ?thesis using step_calls_length [of s rt e] by simp
    next
      case 2
      then show ?thesis by (rule pushed_by_bound)
    qed
  next
    case False
    then show ?thesis using step_new_waiters [of s r rt e] r w by simp
  qed
qed

lemma step_sys_ok: "sys_ok s \<Longrightarrow> sys_ok (step rt s e)"
  by (simp add: sys_ok_def step_registry_ok step_waiters_bounded)

lemma run_sys_ok: "sys_ok s \<Longrightarrow> sys_ok (run rt s es)"
  by (induction es arbitrary: s) (auto simp: step_sys_ok)

lemma reachable_sys_ok: "sys_ok (run rt init_sys es)"
proof -
  have "sys_ok init_sys"
    using init_registry_ok by (simp add: sys_ok_def waiters_bounded_def init_sys_def)
  then show ?thesis by (rule run_sys_ok)
qed

section \<open>A suspended task_wait\<close>

lemma call_waiter_wait_other:
  assumes "awaiting s c = Some k" and "is_wait k" and "w \<noteq> wait_waiter c"
  shows "awaiting (call_waiter w r' s) c = Some k"
proof (cases "waiter_call w = c")
  case True
  then show ?thesis
    using assms
    by (cases w; cases k) (simp_all add: call_waiter_def Let_def is_wait_def)
next
  case False
  have "awaiting (call_waiter w r' s) c = awaiting s c"
    by (rule awaiting_eq) (simp_all add: call_waiter_other [OF False])
  then show ?thesis using assms by simp
qed

lemma call_waiter_wait_self:
  assumes "awaiting s c = Some k" and "is_wait k"
  shows "returned_summary (call_waiter (wait_waiter c) r s) c r"
  using assms awaiting_Some [OF assms(1)]
  by (cases k)
     (simp_all add: call_waiter_def Let_def is_wait_def wait_resume_done_def wait_resume_def
        returned_summary_def)

lemma fold_call_waiter_wait_other:
  assumes "awaiting s c = Some k" and "is_wait k" and "wait_waiter c \<notin> set ws"
  shows "awaiting (fold (\<lambda>w. call_waiter w r') ws s) c = Some k"
  using assms(1,3)
proof (induction ws arbitrary: s)
  case Nil
  then show ?case by simp
next
  case (Cons w ws)
  have "awaiting (call_waiter w r' s) c = Some k"
    using Cons.prems by (intro call_waiter_wait_other assms(2)) auto
  then show ?case using Cons.IH [of "call_waiter w r' s"] Cons.prems(2) by simp
qed

lemma fold_call_waiter_wait:
  assumes "awaiting s c = Some k" and "is_wait k" and "wait_waiter c \<in> set ws"
  shows "returned_summary (fold (\<lambda>w. call_waiter w r) ws s) c r"
  using assms(1,3)
proof (induction ws arbitrary: s)
  case Nil
  then show ?case by simp
next
  case (Cons w ws)
  show ?case
  proof (cases "w = wait_waiter c")
    case True
    have "returned_summary (call_waiter w r s) c r"
      unfolding True by (rule call_waiter_wait_self [OF Cons.prems(1) assms(2)])
    then show ?thesis by (simp add: fold_call_waiter_returned)
  next
    case False
    have "awaiting (call_waiter w r s) c = Some k"
      by (rule call_waiter_wait_other [OF Cons.prems(1) assms(2) False])
    moreover have "wait_waiter c \<in> set ws" using Cons.prems(2) False by auto
    ultimately show ?thesis using Cons.IH [of "call_waiter w r s"] by simp
  qed
qed

lemma on_exit_wait:
  assumes "r < length (heap s)" and "wait_waiter c \<in> set (waiters (heap s ! r))"
    and "awaiting s c = Some k" and "is_wait k"
  shows "returned_summary (on_exit r code sig s) c r"
proof -
  let ?s1 = "s\<lparr>heap := (heap s)[r := (heap s ! r)\<lparr>state := exited, exitCode := code,
                  signal := sig, waiters := []\<rparr>], exit_runs := exit_runs s @ [r]\<rparr>"
  have "awaiting ?s1 c = Some k" using assms(3) by simp
  from fold_call_waiter_wait [OF this assms(4,2), of r]
  show ?thesis by (simp add: on_exit_def Let_def)
qed

lemma fire_timer_wait_other:
  assumes "awaiting s c = Some k" and "is_wait k" and "tm \<noteq> wait_timer c"
  shows "awaiting (fire_timer tm s) c = Some k"
proof (cases "timer_call tm = c")
  case True
  then show ?thesis
    using assms by (cases tm; cases k) (simp_all add: fire_timer_def is_wait_def)
next
  case False
  have "awaiting (fire_timer tm s) c = awaiting s c"
    by (rule awaiting_eq) (simp_all add: fire_timer_other [OF False])
  then show ?thesis using assms by simp
qed

lemma write_done_wait:
  assumes "awaiting s c = Some k" and "is_wait k"
  shows "awaiting (write_done c' e s) c = Some k"
proof (cases "c' = c")
  case True
  then show ?thesis using assms by (cases k) (simp_all add: write_done_def is_wait_def)
next
  case False
  have "awaiting (write_done c' e s) c = awaiting s c"
    by (rule awaiting_eq) (simp_all add: write_done_other [OF False])
  then show ?thesis using assms by simp
qed

lemma on_exit_wait_other:
  assumes "awaiting s c = Some k" and "is_wait k"
    and "wait_waiter c \<notin> set (waiters (heap s ! r'))"
  shows "awaiting (on_exit r' code sig s) c = Some k"
proof -
  let ?s1 = "s\<lparr>heap := (heap s)[r' := (heap s ! r')\<lparr>state := exited, exitCode := code,
                  signal := sig, waiters := []\<rparr>], exit_runs := exit_runs s @ [r']\<rparr>"
  have "awaiting ?s1 c = Some k" using assms(1) by simp
  from fold_call_waiter_wait_other [OF this assms(2,3), of r']
  show ?thesis by (simp add: on_exit_def Let_def)
qed

lemma wait_pending_step:
  assumes p: "wait_pending s c k r"
    and ne: "\<And>code sig. e \<noteq> exit_event r code sig"
    and nt: "e \<noteq> timer_event (wait_timer c)"
  shows "wait_pending (step rt s e) c k r"
proof -
  have k: "is_wait k" and a: "awaiting s c = Some k" and r: "r < length (heap s)"
    and m: "wait_waiter c \<in> set (waiters (heap s ! r))"
    and u: "\<And>r'. r' < length (heap s) \<Longrightarrow> wait_waiter c \<in> set (waiters (heap s ! r')) \<Longrightarrow> r' = r"
    using p by (auto simp: wait_pending_def)
  have c: "c < length (calls s)" using a by (simp add: awaiting_Some)
  have a': "awaiting (step rt s e) c = Some k"
  proof (cases e)
    case (tool_call q orc)
    then show ?thesis using a c by (simp add: awaiting_invoke)
  next
    case (data_event r' strm chunk now)
    then show ?thesis using a by simp
  next
    case (error_event r' err now)
    then show ?thesis using a by (simp add: on_error_def)
  next
    case (exit_event r' code sig)
    show ?thesis
    proof (cases "r' < length (heap s) \<and> r' \<notin> set (ended s)")
      case True
      have "r' \<noteq> r" using ne exit_event by auto
      then have n: "wait_waiter c \<notin> set (waiters (heap (s\<lparr>ended := ended s @ [r']\<rparr>) ! r'))"
        using u [of r'] True by auto
      have "awaiting (s\<lparr>ended := ended s @ [r']\<rparr>) c = Some k" using a by simp
      from on_exit_wait_other [OF this k n, of code sig]
      show ?thesis using True exit_event by simp
    next
      case False
      then show ?thesis using a exit_event by auto
    qed
  next
    case (timer_event tm)
    then show ?thesis using fire_timer_wait_other [OF a k, of tm] nt by simp
  next
    case (write_event c' e')
    then show ?thesis using write_done_wait [OF a k] by simp
  qed
  have r': "r < length (heap (step rt s e))"
    using r step_heap_evolved [of s rt e] by (simp add: heap_evolved_def)
  have m': "wait_waiter c \<in> set (waiters (heap (step rt s e) ! r))"
    using step_waiters [OF r, of rt e] m ne by auto
  have u': "r2 = r" if "r2 < length (heap (step rt s e))"
    and "wait_waiter c \<in> set (waiters (heap (step rt s e) ! r2))" for r2
  proof (cases "r2 < length (heap s)")
    case True
    from step_waiters [OF True, of rt e] that(2)
    consider "wait_waiter c \<in> set (waiters (heap s ! r2))" | "pushed_by s e (wait_waiter c)"
      by auto
    then show ?thesis
    proof cases
      case 1
      then show ?thesis by (rule u [OF True])
    next
      case 2
      then show ?thesis using c by (cases e) (simp_all add: pushed_by_def)
    qed
  next
    case False
    then show ?thesis using step_new_waiters [of s r2 rt e] that by simp
  qed
  show ?thesis
    unfolding wait_pending_def using k a' r' m' u' by blast
qed

lemma wait_pending_run:
  assumes "wait_pending s c k r" and "exit_count r es = 0"
    and "timer_event (wait_timer c) \<notin> set es"
  shows "wait_pending (run rt s es) c k r"
  using assms
proof (induction es arbitrary: s)
  case Nil
  then show ?case by simp
next
  case (Cons e es)
  have ne: "e \<noteq> exit_event r code sig" for code sig
    using Cons.prems(2) by (cases e) auto
  have "exit_count r es = 0"
    using Cons.prems(2) by (cases e) (auto split: if_splits)
  moreover have "wait_pending (step rt s e) c k r"
    using Cons.prems(1,3) ne by (intro wait_pending_step) auto
  ultimately show ?case using Cons.IH [of "step rt s e"] Cons.prems(3) by simp
qed

lemma invoke_wait_running:
  assumes "map_of (tasks s) i = Some r" and "schema_ok (Task_wait i tmo)"
    and "state (heap s ! r) \<noteq> exited"
  shows "step rt s (tool_call (Task_wait i tmo) orc) =
           s\<lparr>heap := (heap s)[r := (heap s ! r)\<lparr>waiters := waiters (heap s ! r) @
                                      [wait_waiter (length (calls s))]\<rparr>],
             sent := sent s @ (case tmo of None \<Rightarrow> []
                                | Some ms \<Rightarrow> [setTimeout (wait_timer (length (calls s))) ms]),
             calls := calls s @ [Awaiting (case tmo of None \<Rightarrow> wait_done r | Some ms \<Rightarrow> wait_race i r)]\<rparr>"
  using assms
  by (cases tmo)
     (simp_all add: invoke_def handler_def task_wait_def getTask_Some Let_def push_waiter_def)

lemma invoke_wait_exited:
  assumes "map_of (tasks s) i = Some r" and "schema_ok (Task_wait i tmo)"
    and "state (heap s ! r) = exited"
  shows "step rt s (tool_call (Task_wait i tmo) orc) =
           s\<lparr>calls := calls s @ [Resolved (Inr (okJson (summary (heap s ! r))))]\<rparr>"
  using assms
  by (simp add: invoke_def handler_def task_wait_def getTask_Some)

lemma registry_okD:
  "registry_ok s \<Longrightarrow> map_of (tasks s) i = Some r \<Longrightarrow> r < length (heap s) \<and> id_task (heap s ! r) = i"
  by (auto simp: registry_ok_def list_all_iff dest: map_of_SomeD)

lemma wait_pending_invoke:
  assumes ok: "sys_ok s" and reg: "map_of (tasks s) i = Some r"
    and sch: "schema_ok (Task_wait i tmo)" and run: "state (heap s ! r) \<noteq> exited"
  shows "wait_pending (step rt s (tool_call (Task_wait i tmo) orc)) (length (calls s))
           (case tmo of None \<Rightarrow> wait_done r | Some ms \<Rightarrow> wait_race i r) r"
proof -
  have r: "r < length (heap s)"
    using ok reg by (simp add: sys_ok_def registry_okD)
  have b: "wait_waiter (length (calls s)) \<notin> set (waiters (heap s ! r'))" if "r' < length (heap s)" for r'
    using waiters_boundedD [of s r' "wait_waiter (length (calls s))"] ok that
    by (auto simp: sys_ok_def)
  show ?thesis
    unfolding invoke_wait_running [OF reg sch run] wait_pending_def
    using r b
    by (auto simp: is_wait_def awaiting_def push_nth split: option.splits if_splits)
qed

section \<open>The children that have ended\<close>

lemma ended_fields [simp]:
  "ended (resolve c res s) = ended s"
  "ended (push_waiter r w s) = ended s"
  "ended (stop_resume1 c r b s) = ended s"
  "ended (stop_resume2 c r s) = ended s"
  "ended (wait_resume_done c r s) = ended s"
  "ended (wait_resume c i r ro s) = ended s"
  "ended (on_data rt r strm chunk now s) = ended s"
  "ended (write_done c e' s) = ended s"
  by (simp_all add: resolve_def push_waiter_def stop_resume1_def stop_resume2_def
        wait_resume_done_def wait_resume_def on_data_def write_done_def Let_def
        split: option.splits cont.splits)

lemma ended_call_waiter [simp]: "ended (call_waiter w r s) = ended s"
  by (simp add: call_waiter_def Let_def split: waiter.splits option.splits cont.splits)

lemma ended_fold_call_waiter [simp]: "ended (fold (\<lambda>w. call_waiter w r) ws s) = ended s"
  by (induction ws arbitrary: s) simp_all

lemma ended_on_exit [simp]: "ended (on_exit r code sig s) = ended s"
  by (simp add: on_exit_def Let_def)

lemma ended_fire_timer [simp]: "ended (fire_timer tm s) = ended s"
  by (simp add: fire_timer_def split: timer.splits option.splits cont.splits)

lemma ended_handler [simp]: "ended (snd (handler rt orc c q s)) = ended s"
  by (cases q)
     (simp_all add: handler_def task_start_def task_status_def task_list_def task_logs_def
        task_write_def task_signal_def task_stop_def task_wait_def task_prune_def prune_loop_eq
        Let_def split: sum.splits option.splits)

lemma ended_invoke [simp]: "ended (invoke rt orc q s) = ended s"
  by (simp add: invoke_def case_prod_beta)

lemma step_ended:
  "ended (step rt s e) =
     ended s @ (case e of
                  exit_event r code sig \<Rightarrow>
                    if r < length (heap s) \<and> r \<notin> set (ended s) then [r] else []
                | _ \<Rightarrow> [])"
  by (cases e) (simp_all add: on_error_def)

lemma step_exit_runs:
  "exit_runs (step rt s e) =
     exit_runs s @ (case e of
                      exit_event r code sig \<Rightarrow>
                        if r < length (heap s) \<and> r \<notin> set (ended s) then [r] else []
                    | _ \<Rightarrow> [])"
  by (cases e) (simp_all add: invoke_fields on_error_def)

lemma step_ended_mono: "r \<in> set (ended s) \<Longrightarrow> r \<in> set (ended (step rt s e))"
  by (simp add: step_ended)

lemma run_ended_mono: "r \<in> set (ended s) \<Longrightarrow> r \<in> set (ended (run rt s es))"
  by (induction es arbitrary: s) (simp_all add: step_ended_mono)

lemma run_not_ended:
  "r \<notin> set (ended s) \<Longrightarrow> exit_count r es = 0 \<Longrightarrow> r \<notin> set (ended (run rt s es))"
proof (induction es arbitrary: s)
  case Nil
  then show ?case by simp
next
  case (Cons e es)
  have "r \<notin> set (ended (step rt s e))"
    using Cons.prems by (cases e) (auto simp: on_error_def split: if_splits)
  moreover have "exit_count r es = 0"
    using Cons.prems(2) by (cases e) (auto split: if_splits)
  ultimately show ?case using Cons.IH [of "step rt s e"] by simp
qed

lemma step_ended_ok:
  assumes "ended_ok s"
  shows "ended_ok (step rt s e)"
proof -
  have x: "exit_runs s = ended s" and d: "distinct (ended s)"
    and a: "\<And>r. r \<in> set (ended s) \<Longrightarrow> r < length (heap s) \<and> state (heap s ! r) = exited"
    using assms by (auto simp: ended_ok_def list_all_iff)
  have h: "heap_evolved (heap s) (heap (step rt s e))" by (rule step_heap_evolved)
  have old: "r < length (heap (step rt s e)) \<and> state (heap (step rt s e) ! r) = exited"
    if "r \<in> set (ended s)" for r
    using a [OF that] h by (auto simp: heap_evolved_def task_evolved_def)
  have new: "r < length (heap (step rt s e)) \<and> state (heap (step rt s e) ! r) = exited"
    if "e = exit_event r code sig" and "r < length (heap s)" and "r \<notin> set (ended s)"
    for r code sig
    using that by simp
  have "exit_runs (step rt s e) = ended (step rt s e)"
    by (simp add: step_exit_runs step_ended x)
  moreover have "distinct (ended (step rt s e))"
    using d by (cases e) (simp_all add: on_error_def)
  moreover have "r < length (heap (step rt s e)) \<and> state (heap (step rt s e) ! r) = exited"
    if m: "r \<in> set (ended (step rt s e))" for r
  proof (cases "r \<in> set (ended s)")
    case True
    then show ?thesis by (rule old)
  next
    case False
    then obtain code sig where "e = exit_event r code sig" "r < length (heap s)"
      using m by (cases e) (auto simp: on_error_def split: if_splits)
    then show ?thesis using False by (intro new) auto
  qed
  ultimately show ?thesis
    by (simp add: ended_ok_def list_all_iff)
qed

lemma run_ended_ok: "ended_ok s \<Longrightarrow> ended_ok (run rt s es)"
  by (induction es arbitrary: s) (auto simp: step_ended_ok)

lemma reachable_ended_ok: "ended_ok (run rt init_sys es)"
proof -
  have "ended_ok init_sys" by (simp add: ended_ok_def init_sys_def)
  then show ?thesis by (rule run_ended_ok)
qed


lemma distinct_count_le_1: "distinct xs \<Longrightarrow> count_list xs x \<le> 1"
  by (induction xs) auto

lemma exit_runs_at_most_once: "count_list (exit_runs (run rt init_sys es)) r \<le> 1"
  using reachable_ended_ok [of rt es]
    distinct_count_le_1 [of "ended (run rt init_sys es)" r]
  by (simp add: ended_ok_def)

lemma run_exit_runs_ended:
  "r \<in> set (ended s) \<Longrightarrow> count_list (exit_runs (run rt s es)) r = count_list (exit_runs s) r"
proof (induction es arbitrary: s)
  case Nil
  then show ?case by simp
next
  case (Cons e es)
  have "count_list (exit_runs (step rt s e)) r = count_list (exit_runs s) r"
    using Cons.prems by (cases e) (auto simp: invoke_fields on_error_def)
  then show ?case
    using Cons.IH [of "step rt s e"] step_ended_mono [OF Cons.prems] by simp
qed

text \<open>What a task has recorded of its exit is changed by the exit event of its child only.\<close>

lemma pushLog_outcome [simp]:
  "exitCode (pushLog rt task strm chunk now) = exitCode task"
  "signal (pushLog rt task strm chunk now) = signal task"
  by (subst pushLog_keeps, simp)+

lemma pushLog_state_pid [simp]:
  "state (pushLog rt task strm chunk now) = state task"
  "pid (pushLog rt task strm chunk now) = pid task"
  by (subst pushLog_keeps, simp)+

lemma waiters_update_outcome:
  assumes "r' < length h"
  shows "state (h[r := (h ! r)\<lparr>waiters := ws\<rparr>] ! r') = state (h ! r')"
    and "exitCode (h[r := (h ! r)\<lparr>waiters := ws\<rparr>] ! r') = exitCode (h ! r')"
    and "signal (h[r := (h ! r)\<lparr>waiters := ws\<rparr>] ! r') = signal (h ! r')"
  using assms by (cases "r < length h"; cases "r' = r"; simp)+

lemma handler_outcome:
  assumes "r < length (heap s)"
  shows "state (heap (snd (handler rt orc c q s)) ! r) = state (heap s ! r) \<and>
         exitCode (heap (snd (handler rt orc c q s)) ! r) = exitCode (heap s ! r) \<and>
         signal (heap (snd (handler rt orc c q s)) ! r) = signal (heap s ! r)"
proof (cases q)
  case (Task_start p)
  then show ?thesis
    using assms by (simp add: handler_def task_start_def Let_def nth_append split: option.splits)
next
  case (Task_stop i tmo)
  then show ?thesis
    using assms
    by (auto simp: handler_def task_stop_def Let_def waiters_update_outcome split: sum.splits)
next
  case (Task_wait i tmo)
  then show ?thesis
    using assms
    by (auto simp: handler_def task_wait_def Let_def waiters_update_outcome
          split: sum.splits option.splits)
next
  case (Task_prune inc)
  then show ?thesis by (simp add: handler_def task_prune_frame)
qed (simp_all add: handler_def task_status_def task_list_def task_logs_def task_write_def
       task_signal_def Let_def split: sum.splits)

lemma fire_timer_outcome:
  assumes "r < length (heap s)"
  shows "state (heap (fire_timer tm s) ! r) = state (heap s ! r) \<and>
         exitCode (heap (fire_timer tm s) ! r) = exitCode (heap s ! r) \<and>
         signal (heap (fire_timer tm s) ! r) = signal (heap s ! r)"
  using assms
  by (cases tm)
     (auto simp: fire_timer_def stop_resume1_def Let_def waiters_update_outcome
        split: option.splits cont.splits)

lemma step_outcome:
  assumes "r < length (heap s)" and "r \<in> set (ended s) \<or> (\<forall>code sig. e \<noteq> exit_event r code sig)"
  shows "state (heap (step rt s e) ! r) = state (heap s ! r) \<and>
         exitCode (heap (step rt s e) ! r) = exitCode (heap s ! r) \<and>
         signal (heap (step rt s e) ! r) = signal (heap s ! r)"
proof (cases e)
  case (tool_call q orc)
  then show ?thesis
    using handler_outcome [OF assms(1), of rt orc "length (calls s)" q]
    by (simp add: invoke_fields)
next
  case (data_event r' strm chunk now)
  then show ?thesis using assms(1) by (simp add: nth_list_update)
next
  case (error_event r' err now)
  then show ?thesis using assms(1) by (simp add: on_error_def nth_list_update)
next
  case (exit_event r' code sig)
  then show ?thesis using assms by (auto simp: nth_list_update)
next
  case (timer_event tm)
  then show ?thesis using fire_timer_outcome [OF assms(1), of tm] by simp
next
  case (write_event c e')
  then show ?thesis by simp
qed

lemma run_outcome:
  assumes "r < length (heap s)" and "r \<in> set (ended s)"
  shows "state (heap (run rt s es) ! r) = state (heap s ! r) \<and>
         exitCode (heap (run rt s es) ! r) = exitCode (heap s ! r) \<and>
         signal (heap (run rt s es) ! r) = signal (heap s ! r)"
  using assms
proof (induction es arbitrary: s)
  case Nil
  then show ?case by simp
next
  case (Cons e es)
  have "r < length (heap (step rt s e))"
    using Cons.prems(1) step_heap_evolved [of s rt e] by (simp add: heap_evolved_def)
  moreover have "r \<in> set (ended (step rt s e))"
    using Cons.prems(2) by (rule step_ended_mono)
  ultimately show ?case
    using Cons.IH [of "step rt s e"] step_outcome [OF Cons.prems(1), of e rt] Cons.prems(2)
    by simp
qed

section \<open>A suspended task_stop and the exit of its task\<close>











lemma sys0_ok: "sys_ok sys0"
  by (simp add: sys_ok_def registry_ok_def waiters_bounded_def sys0_def task0_def)


section \<open>C4: the protocol of task_stop\<close>




section \<open>Runs of the exit listener, and two suspended task_wait\<close>

lemma run_exit_runs:
  "count_list (exit_runs (run rt s es)) r \<le> count_list (exit_runs s) r + exit_count r es"
proof (induction es arbitrary: s)
  case Nil
  then show ?case by simp
next
  case (Cons e es)
  have "count_list (exit_runs (step rt s e)) r + exit_count r es
          \<le> count_list (exit_runs s) r + exit_count r (e # es)"
    by (cases e) (simp_all add: invoke_fields on_error_def)
  then show ?case using Cons.IH [of "step rt s e"] by simp
qed

lemma two_waits_then_exit:
  assumes ok: "sys_ok s" and reg: "map_of (tasks s) i = Some r"
    and run: "state (heap s ! r) \<noteq> exited" and nd: "r \<notin> set (ended s)"
    and sch: "schema_ok (Task_wait i t1)" "schema_ok (Task_wait i t2)"
    and ne: "exit_count r es = 0"
    and nt: "timer_event (wait_timer (length (calls s))) \<notin> set es"
            "timer_event (wait_timer (Suc (length (calls s)))) \<notin> set es"
  shows "returned_summary
           (run rt s (tool_call (Task_wait i t1) o1 # tool_call (Task_wait i t2) o2 # es @
                      [exit_event r code sig])) (length (calls s)) r \<and>
         returned_summary
           (run rt s (tool_call (Task_wait i t1) o1 # tool_call (Task_wait i t2) o2 # es @
                      [exit_event r code sig])) (Suc (length (calls s))) r"
proof -
  let ?c = "length (calls s)"
  let ?k1 = "case t1 of None \<Rightarrow> wait_done r | Some ms \<Rightarrow> wait_race i r"
  let ?k2 = "case t2 of None \<Rightarrow> wait_done r | Some ms \<Rightarrow> wait_race i r"
  let ?s1 = "step rt s (tool_call (Task_wait i t1) o1)"
  let ?s2 = "step rt ?s1 (tool_call (Task_wait i t2) o2)"
  let ?s3 = "run rt ?s2 es"
  let ?s4 = "?s3\<lparr>ended := ended ?s3 @ [r]\<rparr>"
  have r: "r < length (heap s)"
    using ok reg by (simp add: sys_ok_def registry_okD)
  have p1: "wait_pending ?s1 ?c ?k1 r"
    by (rule wait_pending_invoke [OF ok reg sch(1) run])
  have e1: "?s1 = s\<lparr>heap := (heap s)[r := (heap s ! r)\<lparr>waiters := waiters (heap s ! r) @
                                      [wait_waiter ?c]\<rparr>],
             sent := sent s @ (case t1 of None \<Rightarrow> []
                                | Some ms \<Rightarrow> [setTimeout (wait_timer ?c) ms]),
             calls := calls s @ [Awaiting ?k1]\<rparr>"
    by (rule invoke_wait_running [OF reg sch(1) run])
  have ok1: "sys_ok ?s1" using ok by (rule step_sys_ok)
  have reg1: "map_of (tasks ?s1) i = Some r" unfolding e1 using reg by simp
  have run1: "state (heap ?s1 ! r) \<noteq> exited" unfolding e1 using run r by simp
  have c1: "length (calls ?s1) = Suc ?c" unfolding e1 by simp
  have p2: "wait_pending ?s2 (Suc ?c) ?k2 r"
    using wait_pending_invoke [OF ok1 reg1 sch(2) run1, of rt o2] unfolding c1 .
  have p1': "wait_pending ?s2 ?c ?k1 r"
    by (rule wait_pending_step [OF p1]) simp_all
  have q1: "wait_pending ?s3 ?c ?k1 r"
    by (rule wait_pending_run [OF p1' ne nt(1)])
  have q2: "wait_pending ?s3 (Suc ?c) ?k2 r"
    by (rule wait_pending_run [OF p2 ne nt(2)])
  have "r \<notin> set (ended ?s2)" using nd by simp
  then have n3: "r \<notin> set (ended ?s3)" using ne by (rule run_not_ended)
  have fin: "run rt s (tool_call (Task_wait i t1) o1 # tool_call (Task_wait i t2) o2 # es @
                      [exit_event r code sig]) = on_exit r code sig ?s4"
    using q1 n3 by (simp add: run_append wait_pending_def)
  have "returned_summary (on_exit r code sig ?s4) ?c r"
    using q1 by (intro on_exit_wait [where k = ?k1]) (simp_all add: wait_pending_def)
  moreover have "returned_summary (on_exit r code sig ?s4) (Suc ?c) r"
    using q2 by (intro on_exit_wait [where k = ?k2]) (simp_all add: wait_pending_def)
  ultimately show ?thesis
    unfolding fin by simp
qed

section \<open>C3: the exit of a task\<close>

text \<open>
  C3. Node emits \<open>"exit"\<close> for a child once, so the event occurs for a child that has not
  ended. The listener of the task then sets \<open>state\<close> to \<open>exited\<close>, records the code and
  the signal it is given, empties the waiter list and calls every waiter that was in it
  once, in order, each with this task. Whatever the later events, exit events named after
  the same child among them, the state stays \<open>exited\<close>, the code and the signal stay as
  recorded, and the listener of the task has not run again. Two suspended \<open>task_wait\<close>
  whose waiters are in the list both return the summary of the task as the listener
  leaves it: in particular after two \<open>task_wait\<close> on a running task of a well-formed
  state, any events but the exit of that task and the two timers, and then the exit. In
  every state of a run from the start, whatever its events, the listener of a task has
  run at most once, and no more often than there are exit events of its child; and every
  such state is well-formed.
\<close>

theorem exit_transition:
  assumes "r < length (heap s)" and "r \<notin> set (ended s)"
  shows
    "state (heap (step rt s (exit_event r code sig)) ! r) = exited \<and>
     exitCode (heap (step rt s (exit_event r code sig)) ! r) = code \<and>
     signal (heap (step rt s (exit_event r code sig)) ! r) = sig \<and>
     waiters (heap (step rt s (exit_event r code sig)) ! r) = [] \<and>
     invoked (step rt s (exit_event r code sig)) =
       invoked s @ map (\<lambda>w. (w, r)) (waiters (heap s ! r)) \<and>
     exit_runs (step rt s (exit_event r code sig)) = exit_runs s @ [r] \<and>
     state (heap (run rt (step rt s (exit_event r code sig)) es) ! r) = exited \<and>
     exitCode (heap (run rt (step rt s (exit_event r code sig)) es) ! r) = code \<and>
     signal (heap (run rt (step rt s (exit_event r code sig)) es) ! r) = sig \<and>
     count_list (exit_runs (run rt (step rt s (exit_event r code sig)) es)) r =
       count_list (exit_runs s) r + 1 \<and>
     (wait_waiter c1 \<in> set (waiters (heap s ! r)) \<and> awaiting s c1 = Some k1 \<and> is_wait k1 \<and>
      wait_waiter c2 \<in> set (waiters (heap s ! r)) \<and> awaiting s c2 = Some k2 \<and> is_wait k2 \<longrightarrow>
        calls (step rt s (exit_event r code sig)) ! c1 =
          Resolved (Inr (okJson (summary (heap (step rt s (exit_event r code sig)) ! r)))) \<and>
        calls (step rt s (exit_event r code sig)) ! c2 =
          calls (step rt s (exit_event r code sig)) ! c1) \<and>
     (sys_ok s \<and> map_of (tasks s) i = Some r \<and> state (heap s ! r) \<noteq> exited \<and>
      schema_ok (Task_wait i t1) \<and> schema_ok (Task_wait i t2) \<and> exit_count r es' = 0 \<and>
      timer_event (wait_timer (length (calls s))) \<notin> set es' \<and>
      timer_event (wait_timer (Suc (length (calls s)))) \<notin> set es' \<longrightarrow>
        calls (run rt s (tool_call (Task_wait i t1) o1 # tool_call (Task_wait i t2) o2 # es' @
                         [exit_event r code sig])) ! length (calls s) =
          Resolved (Inr (okJson (summary
            (heap (run rt s (tool_call (Task_wait i t1) o1 # tool_call (Task_wait i t2) o2 # es' @
                             [exit_event r code sig])) ! r)))) \<and>
        calls (run rt s (tool_call (Task_wait i t1) o1 # tool_call (Task_wait i t2) o2 # es' @
                         [exit_event r code sig])) ! Suc (length (calls s)) =
          calls (run rt s (tool_call (Task_wait i t1) o1 # tool_call (Task_wait i t2) o2 # es' @
                           [exit_event r code sig])) ! length (calls s)) \<and>
     count_list (exit_runs (run rt init_sys evs)) r' \<le> 1 \<and>
     count_list (exit_runs (run rt init_sys evs)) r' \<le> exit_count r' evs \<and>
     sys_ok (run rt init_sys evs) \<and> ended_ok (run rt init_sys evs)"
proof (intro conjI impI)
  let ?s1 = "step rt s (exit_event r code sig)"
  show x: "state (heap ?s1 ! r) = exited"
    and y: "exitCode (heap ?s1 ! r) = code" and z: "signal (heap ?s1 ! r) = sig"
    and "waiters (heap ?s1 ! r) = []"
    and "invoked ?s1 = invoked s @ map (\<lambda>w. (w, r)) (waiters (heap s ! r))"
    and xr: "exit_runs ?s1 = exit_runs s @ [r]"
    using assms by simp_all
  have l: "r < length (heap ?s1)" and m: "r \<in> set (ended ?s1)"
    using assms by simp_all
  from run_outcome [OF l m, of rt es]
  show "state (heap (run rt ?s1 es) ! r) = exited"
    and "exitCode (heap (run rt ?s1 es) ! r) = code"
    and "signal (heap (run rt ?s1 es) ! r) = sig"
    using x y z by simp_all
  have "count_list (exit_runs (run rt ?s1 es)) r = count_list (exit_runs ?s1) r"
    by (rule run_exit_runs_ended [OF m])
  moreover have "count_list (exit_runs s @ [r]) r = count_list (exit_runs s) r + 1"
    by (induction "exit_runs s") simp_all
  ultimately show "count_list (exit_runs (run rt ?s1 es)) r = count_list (exit_runs s) r + 1"
    by (simp only: xr)
  show "count_list (exit_runs (run rt init_sys evs)) r' \<le> 1"
    by (rule exit_runs_at_most_once)
  show "count_list (exit_runs (run rt init_sys evs)) r' \<le> exit_count r' evs"
    using run_exit_runs [of rt init_sys evs r'] by (simp add: init_sys_def)
  show "sys_ok (run rt init_sys evs)"
    by (rule reachable_sys_ok)
  show "ended_ok (run rt init_sys evs)"
    by (rule reachable_ended_ok)
next
  let ?s1 = "step rt s (exit_event r code sig)"
  let ?s0 = "s\<lparr>ended := ended s @ [r]\<rparr>"
  assume h: "wait_waiter c1 \<in> set (waiters (heap s ! r)) \<and> awaiting s c1 = Some k1 \<and> is_wait k1 \<and>
      wait_waiter c2 \<in> set (waiters (heap s ! r)) \<and> awaiting s c2 = Some k2 \<and> is_wait k2"
  have "returned_summary (on_exit r code sig ?s0) c1 r"
    using h assms by (intro on_exit_wait [where k = k1]) simp_all
  moreover have "returned_summary (on_exit r code sig ?s0) c2 r"
    using h assms by (intro on_exit_wait [where k = k2]) simp_all
  ultimately show "calls ?s1 ! c1 = Resolved (Inr (okJson (summary (heap ?s1 ! r))))"
    and "calls ?s1 ! c2 = calls ?s1 ! c1"
    using assms by (simp_all add: returned_summary_def)
next
  let ?es = "tool_call (Task_wait i t1) o1 # tool_call (Task_wait i t2) o2 # es' @ [exit_event r code sig]"
  assume h: "sys_ok s \<and> map_of (tasks s) i = Some r \<and> state (heap s ! r) \<noteq> exited \<and>
      schema_ok (Task_wait i t1) \<and> schema_ok (Task_wait i t2) \<and> exit_count r es' = 0 \<and>
      timer_event (wait_timer (length (calls s))) \<notin> set es' \<and>
      timer_event (wait_timer (Suc (length (calls s)))) \<notin> set es'"
  have "returned_summary (run rt s ?es) (length (calls s)) r \<and>
        returned_summary (run rt s ?es) (Suc (length (calls s))) r"
    using h assms(2) by (intro two_waits_then_exit) auto
  then show "calls (run rt s ?es) ! length (calls s) =
          Resolved (Inr (okJson (summary (heap (run rt s ?es) ! r))))"
    and "calls (run rt s ?es) ! Suc (length (calls s)) = calls (run rt s ?es) ! length (calls s)"
    by (simp_all add: returned_summary_def)
qed

text \<open>
  A running task with two suspended \<open>task_wait\<close>, one of them with a timeout, exits with
  code 3; an exit event named after the same child afterwards changes neither the code nor
  the number of runs of the listener, also in the run from the start that creates the task.
\<close>

theorem exit_transition_witness:
  "(0::nat) < length (heap sys0) \<and> 0 \<notin> set (ended sys0) \<and>
   state (heap (step rt0 sys0 (exit_event 0 (Some 3) None)) ! 0) = exited \<and>
   exitCode (heap (step rt0 sys0 (exit_event 0 (Some 3) None)) ! 0) = Some 3 \<and>
   signal (heap (step rt0 sys0 (exit_event 0 (Some 3) None)) ! 0) = None \<and>
   exit_runs (step rt0 sys0 (exit_event 0 (Some 3) None)) = [1, 0] \<and>
   state (heap (run rt0 (step rt0 sys0 (exit_event 0 (Some 3) None))
                  [exit_event 0 (Some 9) (Some ''SIGKILL'')]) ! 0) = exited \<and>
   exitCode (heap (run rt0 (step rt0 sys0 (exit_event 0 (Some 3) None))
                     [exit_event 0 (Some 9) (Some ''SIGKILL'')]) ! 0) = Some 3 \<and>
   signal (heap (run rt0 (step rt0 sys0 (exit_event 0 (Some 3) None))
                   [exit_event 0 (Some 9) (Some ''SIGKILL'')]) ! 0) = None \<and>
   count_list (exit_runs (run rt0 (step rt0 sys0 (exit_event 0 (Some 3) None))
                            [exit_event 0 (Some 9) (Some ''SIGKILL'')])) 0 = 1 \<and>
   count_list (exit_runs (run rt0 init_sys
       [tool_call (Task_start params0) out0, exit_event 0 (Some 3) None,
        exit_event 0 (Some 9) None])) 0 \<le> 1 \<and>
   sys_ok sys0 \<and> map_of (tasks sys0) ''a'' = Some 0 \<and> state (heap sys0 ! 0) \<noteq> exited \<and>
   schema_ok (Task_wait ''a'' None) \<and> schema_ok (Task_wait ''a'' (Some 50)) \<and>
   exit_count 0 [] = 0 \<and>
   calls (run rt0 sys0 [tool_call (Task_wait ''a'' None) out0,
                        tool_call (Task_wait ''a'' (Some 50)) out0,
                        exit_event 0 (Some 3) None]) ! 0 =
     Resolved (Inr (okJson (summary
       (heap (run rt0 sys0 [tool_call (Task_wait ''a'' None) out0,
                            tool_call (Task_wait ''a'' (Some 50)) out0,
                            exit_event 0 (Some 3) None]) ! 0)))) \<and>
   calls (run rt0 sys0 [tool_call (Task_wait ''a'' None) out0,
                        tool_call (Task_wait ''a'' (Some 50)) out0,
                        exit_event 0 (Some 3) None]) ! Suc 0 =
     calls (run rt0 sys0 [tool_call (Task_wait ''a'' None) out0,
                          tool_call (Task_wait ''a'' (Some 50)) out0,
                          exit_event 0 (Some 3) None]) ! 0 \<and>
   wait_waiter 0 \<in> set (waiters (heap (run rt0 sys0 [tool_call (Task_wait ''a'' None) out0,
                        tool_call (Task_wait ''a'' (Some 50)) out0]) ! 0)) \<and>
   awaiting (run rt0 sys0 [tool_call (Task_wait ''a'' None) out0,
                        tool_call (Task_wait ''a'' (Some 50)) out0]) 0 = Some (wait_done 0) \<and>
   is_wait (wait_done 0) \<and>
   wait_waiter 1 \<in> set (waiters (heap (run rt0 sys0 [tool_call (Task_wait ''a'' None) out0,
                        tool_call (Task_wait ''a'' (Some 50)) out0]) ! 0)) \<and>
   awaiting (run rt0 sys0 [tool_call (Task_wait ''a'' None) out0,
                        tool_call (Task_wait ''a'' (Some 50)) out0]) 1 = Some (wait_race ''a'' 0) \<and>
   is_wait (wait_race ''a'' 0) \<and>
   invoked (step rt0 (run rt0 sys0 [tool_call (Task_wait ''a'' None) out0,
                        tool_call (Task_wait ''a'' (Some 50)) out0]) (exit_event 0 (Some 3) None)) =
     [(wait_waiter 0, 0), (wait_waiter 1, 0)]"
proof -
  have l: "(0::nat) < length (heap sys0)" and n: "0 \<notin> set (ended sys0)"
    and a: "map_of (tasks sys0) ''a'' = Some 0"
    and ra: "state (heap sys0 ! 0) \<noteq> exited" and c0: "length (calls sys0) = 0"
    and x0: "exit_runs sys0 = [1]"
    by (simp_all add: sys0_def task0_def)
  have ok: "schema_ok (Task_wait ''a'' None)" "schema_ok (Task_wait ''a'' (Some 50))"
    by (simp_all add: schema_ok_def at_least_def)
  note th = exit_transition [OF l n, where rt = rt0 and code = "Some 3" and sig = None
      and i = "''a''" and ?t1.0 = None and ?t2.0 = "Some 50" and es' = "[]" and ?o1.0 = out0
      and ?o2.0 = out0 and es = "[exit_event 0 (Some 9) (Some ''SIGKILL'')]" and r' = 0
      and evs = "[tool_call (Task_start params0) out0, exit_event 0 (Some 3) None,
                  exit_event 0 (Some 9) None]"]
  have h: "sys_ok sys0 \<and> map_of (tasks sys0) ''a'' = Some 0 \<and> state (heap sys0 ! 0) \<noteq> exited \<and>
      schema_ok (Task_wait ''a'' None) \<and> schema_ok (Task_wait ''a'' (Some 50)) \<and>
      exit_count 0 [] = 0 \<and>
      timer_event (wait_timer (length (calls sys0))) \<notin> set [] \<and>
      timer_event (wait_timer (Suc (length (calls sys0)))) \<notin> set []"
    using sys0_ok a ra ok by simp
  note two = th [THEN conjunct2, THEN conjunct2, THEN conjunct2, THEN conjunct2, THEN conjunct2, THEN conjunct2, THEN conjunct2, THEN conjunct2, THEN conjunct2, THEN conjunct2, THEN conjunct2, THEN conjunct1, THEN mp, OF h]
  define s2 where "s2 = run rt0 sys0 [tool_call (Task_wait ''a'' None) out0,
                        tool_call (Task_wait ''a'' (Some 50)) out0]"
  have e2: "s2 = sys0\<lparr>heap := (heap sys0)[0 := (heap sys0 ! 0)\<lparr>waiters := [wait_waiter 0, wait_waiter 1]\<rparr>],
                     sent := [setTimeout (wait_timer 1) 50],
                     calls := [Awaiting (wait_done 0), Awaiting (wait_race ''a'' 0)]\<rparr>"
    unfolding s2_def
    by (simp add: invoke_def schema_ok_def at_least_def handler_def task_wait_def getTask_def
          push_waiter_def Let_def sys0_def task0_def)
  have l2: "0 < length (heap s2)" and n2: "0 \<notin> set (ended s2)"
    and m: "wait_waiter 0 \<in> set (waiters (heap s2 ! 0))" "wait_waiter 1 \<in> set (waiters (heap s2 ! 0))"
    and aw: "awaiting s2 0 = Some (wait_done 0)" "awaiting s2 1 = Some (wait_race ''a'' 0)"
    and iv: "invoked s2 = []" "waiters (heap s2 ! 0) = [wait_waiter 0, wait_waiter 1]"
    unfolding e2 by (simp_all add: sys0_def awaiting_def)
  have iw: "is_wait (wait_done 0)" "is_wait (wait_race ''a'' 0)"
    by (simp_all add: is_wait_def)
  note th2 = exit_transition [OF l2 n2, where rt = rt0 and code = "Some 3" and sig = None
      and ?c1.0 = 0 and ?k1.0 = "wait_done 0" and ?c2.0 = 1 and ?k2.0 = "wait_race ''a'' 0"]
  have x: "invoked (step rt0 s2 (exit_event 0 (Some 3) None)) = [(wait_waiter 0, 0), (wait_waiter 1, 0)]"
    using th2 [THEN conjunct2, THEN conjunct2, THEN conjunct2, THEN conjunct2, THEN conjunct1]
    by (simp add: iv)
  have one: "state (heap (step rt0 sys0 (exit_event 0 (Some 3) None)) ! 0) = exited"
    "exitCode (heap (step rt0 sys0 (exit_event 0 (Some 3) None)) ! 0) = Some 3"
    "signal (heap (step rt0 sys0 (exit_event 0 (Some 3) None)) ! 0) = None"
    using th [THEN conjunct1] th [THEN conjunct2, THEN conjunct1] th [THEN conjunct2, THEN conjunct2, THEN conjunct1] by blast+
  have xr: "exit_runs (step rt0 sys0 (exit_event 0 (Some 3) None)) = [1, 0]"
    using th [THEN conjunct2, THEN conjunct2, THEN conjunct2, THEN conjunct2, THEN conjunct2, THEN conjunct1] by (simp only: x0 append.simps)
  define s1 where "s1 = step rt0 sys0 (exit_event 0 (Some 3) None)"
  have later: "state (heap (run rt0 s1 [exit_event 0 (Some 9) (Some ''SIGKILL'')]) ! 0) = exited"
    "exitCode (heap (run rt0 s1 [exit_event 0 (Some 9) (Some ''SIGKILL'')]) ! 0) = Some 3"
    "signal (heap (run rt0 s1 [exit_event 0 (Some 9) (Some ''SIGKILL'')]) ! 0) = None"
    unfolding s1_def
    using th [THEN conjunct2, THEN conjunct2, THEN conjunct2, THEN conjunct2, THEN conjunct2, THEN conjunct2, THEN conjunct1] th [THEN conjunct2, THEN conjunct2, THEN conjunct2, THEN conjunct2, THEN conjunct2, THEN conjunct2, THEN conjunct2, THEN conjunct1] th [THEN conjunct2, THEN conjunct2, THEN conjunct2, THEN conjunct2, THEN conjunct2, THEN conjunct2, THEN conjunct2, THEN conjunct2, THEN conjunct1] by blast+
  have cnt: "count_list (exit_runs (run rt0 s1 [exit_event 0 (Some 9) (Some ''SIGKILL'')])) 0 = 1"
    unfolding s1_def
    using th [THEN conjunct2, THEN conjunct2, THEN conjunct2, THEN conjunct2, THEN conjunct2, THEN conjunct2, THEN conjunct2, THEN conjunct2, THEN conjunct2, THEN conjunct1] by (simp only: x0) simp
  have once: "count_list (exit_runs (run rt0 init_sys
       [tool_call (Task_start params0) out0, exit_event 0 (Some 3) None,
        exit_event 0 (Some 9) None])) 0 \<le> 1"
    by (rule th [THEN conjunct2, THEN conjunct2, THEN conjunct2, THEN conjunct2, THEN conjunct2, THEN conjunct2, THEN conjunct2, THEN conjunct2, THEN conjunct2, THEN conjunct2, THEN conjunct2, THEN conjunct2, THEN conjunct1])
  have three: "calls (run rt0 sys0 [tool_call (Task_wait ''a'' None) out0,
                        tool_call (Task_wait ''a'' (Some 50)) out0,
                        exit_event 0 (Some 3) None]) ! 0 =
     Resolved (Inr (okJson (summary
       (heap (run rt0 sys0 [tool_call (Task_wait ''a'' None) out0,
                            tool_call (Task_wait ''a'' (Some 50)) out0,
                            exit_event 0 (Some 3) None]) ! 0))))"
   "calls (run rt0 sys0 [tool_call (Task_wait ''a'' None) out0,
                        tool_call (Task_wait ''a'' (Some 50)) out0,
                        exit_event 0 (Some 3) None]) ! Suc 0 =
     calls (run rt0 sys0 [tool_call (Task_wait ''a'' None) out0,
                          tool_call (Task_wait ''a'' (Some 50)) out0,
                          exit_event 0 (Some 3) None]) ! 0"
    using two unfolding c0 by simp_all
  have n0: "exit_count 0 [] = 0" by simp
  show ?thesis
    apply (intro conjI)
    using l n sys0_ok a ra ok n0 one xr later [unfolded s1_def] cnt [unfolded s1_def]
      once three m aw iw x
    unfolding s2_def by simp_all
qed

section \<open>C6: task_wait\<close>

lemma wait_timer_fires:
  assumes "awaiting s c = Some (wait_race i r)"
  shows "step rt s (timer_event (wait_timer c)) =
           s\<lparr>calls := (calls s)[c := Resolved (Inr (okJson (JObj
                [(''id'', JStr i), (''state'', state_json (state (heap s ! r))),
                 (''pid'', JNum (pid (heap s ! r))), (''timeout'', JBool True)])))]\<rparr>"
  using assms by (simp add: fire_timer_def wait_resume_def resolve_def)

lemma run_id_task:
  assumes "r < length (heap s)"
  shows "id_task (heap (run rt s es) ! r) = id_task (heap s ! r)"
  using run_heap_evolved [of s rt es] assms
  by (simp add: heap_evolved_def task_evolved_def)

text \<open>
  C6. \<open>task_wait\<close> on a registered task of a well-formed state. If the task has exited, the
  summary is returned at once and the state is otherwise unchanged: no waiter is queued.
  If it has not and \<open>timeoutMs\<close> is given, a waiter is queued and a timer of \<open>timeoutMs\<close> is
  set; after any events but the exit of the task, the invocation is still suspended, and
  when its timer fires it returns \<open>timeout: true\<close> with the id of the task and its state
  and pid as they are in the state in which the timer fires. More generally a timer that
  fires while its invocation is still in the race gives this result. Every state the server
  reaches from its start is well-formed.
\<close>

theorem task_wait_results:
  assumes "sys_ok s" and "map_of (tasks s) i = Some r" and "schema_ok (Task_wait i tmo)"
  shows
    "(state (heap s ! r) = exited \<longrightarrow>
        task_wait c i tmo s = (Resolved (Inr (okJson (summary (heap s ! r)))), s) \<and>
        step rt s (tool_call (Task_wait i tmo) orc) =
          s\<lparr>calls := calls s @ [Resolved (Inr (okJson (summary (heap s ! r))))]\<rparr>) \<and>
     (state (heap s ! r) \<noteq> exited \<and> tmo = Some ms \<and> exit_count r es = 0 \<and>
      timer_event (wait_timer (length (calls s))) \<notin> set es \<longrightarrow>
        step rt s (tool_call (Task_wait i tmo) orc) =
          s\<lparr>heap := (heap s)[r := (heap s ! r)\<lparr>waiters := waiters (heap s ! r) @
                                     [wait_waiter (length (calls s))]\<rparr>],
            sent := sent s @ [setTimeout (wait_timer (length (calls s))) ms],
            calls := calls s @ [Awaiting (wait_race i r)]\<rparr> \<and>
        awaiting (run rt (step rt s (tool_call (Task_wait i tmo) orc)) es) (length (calls s)) =
          Some (wait_race i r) \<and>
        id_task (heap (run rt (step rt s (tool_call (Task_wait i tmo) orc)) es) ! r) = i \<and>
        step rt (run rt (step rt s (tool_call (Task_wait i tmo) orc)) es)
             (timer_event (wait_timer (length (calls s)))) =
          (run rt (step rt s (tool_call (Task_wait i tmo) orc)) es)
            \<lparr>calls := (calls (run rt (step rt s (tool_call (Task_wait i tmo) orc)) es))
               [length (calls s) := Resolved (Inr (okJson (JObj
                  [(''id'', JStr i),
                   (''state'', state_json (state
                      (heap (run rt (step rt s (tool_call (Task_wait i tmo) orc)) es) ! r))),
                   (''pid'', JNum (pid
                      (heap (run rt (step rt s (tool_call (Task_wait i tmo) orc)) es) ! r))),
                   (''timeout'', JBool True)])))]\<rparr>) \<and>
     (awaiting s2 c2 = Some (wait_race i2 r2) \<longrightarrow>
        step rt s2 (timer_event (wait_timer c2)) =
          s2\<lparr>calls := (calls s2)[c2 := Resolved (Inr (okJson (JObj
                [(''id'', JStr i2), (''state'', state_json (state (heap s2 ! r2))),
                 (''pid'', JNum (pid (heap s2 ! r2))), (''timeout'', JBool True)])))]\<rparr>) \<and>
     sys_ok (run rt init_sys evs)"
proof (intro conjI impI)
  assume x: "state (heap s ! r) = exited"
  show "task_wait c i tmo s = (Resolved (Inr (okJson (summary (heap s ! r)))), s)"
    using x by (simp add: task_wait_def getTask_Some [OF assms(2)])
  show "step rt s (tool_call (Task_wait i tmo) orc) =
          s\<lparr>calls := calls s @ [Resolved (Inr (okJson (summary (heap s ! r))))]\<rparr>"
    by (rule invoke_wait_exited [OF assms(2,3) x])
next
  let ?s1 = "step rt s (tool_call (Task_wait i tmo) orc)"
  let ?s2 = "run rt ?s1 es"
  let ?c = "length (calls s)"
  assume h: "state (heap s ! r) \<noteq> exited \<and> tmo = Some ms \<and> exit_count r es = 0 \<and>
      timer_event (wait_timer (length (calls s))) \<notin> set es"
  then have run: "state (heap s ! r) \<noteq> exited" and tmo: "tmo = Some ms"
    and ne: "exit_count r es = 0" and nt: "timer_event (wait_timer ?c) \<notin> set es"
    by simp_all
  have r: "r < length (heap s)" and idt: "id_task (heap s ! r) = i"
    using assms(1,2) by (simp_all add: sys_ok_def registry_okD)
  show e1: "?s1 = s\<lparr>heap := (heap s)[r := (heap s ! r)\<lparr>waiters := waiters (heap s ! r) @
                                     [wait_waiter ?c]\<rparr>],
            sent := sent s @ [setTimeout (wait_timer ?c) ms],
            calls := calls s @ [Awaiting (wait_race i r)]\<rparr>"
    using invoke_wait_running [OF assms(2,3) run, of rt orc] by (simp add: tmo)
  have "wait_pending ?s1 ?c (wait_race i r) r"
    using wait_pending_invoke [OF assms run, of rt orc] by (simp add: tmo)
  then have "wait_pending ?s2 ?c (wait_race i r) r"
    using ne nt by (rule wait_pending_run)
  then show aw: "awaiting ?s2 ?c = Some (wait_race i r)"
    by (simp add: wait_pending_def)
  have "r < length (heap ?s1)" unfolding e1 using r by simp
  then have "id_task (heap ?s2 ! r) = id_task (heap ?s1 ! r)"
    by (rule run_id_task)
  also have "\<dots> = i" unfolding e1 using r idt by simp
  finally show "id_task (heap ?s2 ! r) = i" .
  show "step rt ?s2 (timer_event (wait_timer ?c)) =
          ?s2\<lparr>calls := (calls ?s2)[?c := Resolved (Inr (okJson (JObj
                  [(''id'', JStr i), (''state'', state_json (state (heap ?s2 ! r))),
                   (''pid'', JNum (pid (heap ?s2 ! r))), (''timeout'', JBool True)])))]\<rparr>"
    by (rule wait_timer_fires [OF aw])
next
  assume "awaiting s2 c2 = Some (wait_race i2 r2)"
  then show "step rt s2 (timer_event (wait_timer c2)) =
          s2\<lparr>calls := (calls s2)[c2 := Resolved (Inr (okJson (JObj
                [(''id'', JStr i2), (''state'', state_json (state (heap s2 ! r2))),
                 (''pid'', JNum (pid (heap s2 ! r2))), (''timeout'', JBool True)])))]\<rparr>"
    by (rule wait_timer_fires)
next
  show "sys_ok (run rt init_sys evs)"
    by (rule reachable_sys_ok)
qed

text \<open>
  A wait on the exited task returns at once; a wait of 50 ms on the running task, one chunk
  of output, then the timer.
\<close>

theorem task_wait_results_witness:
  "sys_ok sys0 \<and> map_of (tasks sys0) ''b'' = Some 1 \<and> schema_ok (Task_wait ''b'' None) \<and>
   state (heap sys0 ! 1) = exited \<and>
   task_wait 0 ''b'' None sys0 = (Resolved (Inr (okJson (summary (heap sys0 ! 1)))), sys0) \<and>
   map_of (tasks sys0) ''a'' = Some 0 \<and> schema_ok (Task_wait ''a'' (Some 50)) \<and>
   state (heap sys0 ! 0) \<noteq> exited \<and> exit_count 0 [data_event 0 stdout ''x'' 9] = 0 \<and>
   timer_event (wait_timer 0) \<notin> set [data_event 0 stdout ''x'' 9] \<and>
   sent (step rt0 sys0 (tool_call (Task_wait ''a'' (Some 50)) out0)) = [setTimeout (wait_timer 0) 50] \<and>
   calls (run rt0 sys0 [tool_call (Task_wait ''a'' (Some 50)) out0, data_event 0 stdout ''x'' 9,
                        timer_event (wait_timer 0)]) =
     [Resolved (Inr (okJson (JObj
        [(''id'', JStr ''a''), (''state'', JStr ''running''), (''pid'', JNum 7),
         (''timeout'', JBool True)])))] \<and>
   awaiting (step rt0 sys0 (tool_call (Task_wait ''a'' (Some 50)) out0)) 0 =
     Some (wait_race ''a'' 0) \<and>
   calls (step rt0 (step rt0 sys0 (tool_call (Task_wait ''a'' (Some 50)) out0))
            (timer_event (wait_timer 0))) =
     [Resolved (Inr (okJson (JObj
        [(''id'', JStr ''a''), (''state'', JStr ''running''), (''pid'', JNum 7),
         (''timeout'', JBool True)])))]"
proof -
  let ?s1 = "step rt0 sys0 (tool_call (Task_wait ''a'' (Some 50)) out0)"
  let ?s2 = "run rt0 ?s1 [data_event 0 stdout ''x'' 9]"
  have a: "map_of (tasks sys0) ''a'' = Some 0" and b: "map_of (tasks sys0) ''b'' = Some 1"
    and ra: "state (heap sys0 ! 0) \<noteq> exited" and rb: "state (heap sys0 ! 1) = exited"
    and c0: "length (calls sys0) = 0" "calls sys0 = []" "sent sys0 = []"
    by (simp_all add: sys0_def task0_def)
  have oka: "schema_ok (Task_wait ''a'' (Some 50))" and okb: "schema_ok (Task_wait ''b'' None)"
    by (simp_all add: schema_ok_def at_least_def)
  have n: "exit_count 0 [data_event 0 stdout ''x'' 9] = 0"
    "timer_event (wait_timer 0) \<notin> set [data_event 0 stdout ''x'' 9]"
    by simp_all
  note thb = task_wait_results [OF sys0_ok b okb, where c = 0]
  have wb: "task_wait 0 ''b'' None sys0 = (Resolved (Inr (okJson (summary (heap sys0 ! 1)))), sys0)"
    using thb [THEN conjunct1, THEN mp, OF rb] by simp
  have h: "state (heap sys0 ! 0) \<noteq> exited \<and> Some 50 = Some 50 \<and>
      exit_count 0 [data_event 0 stdout ''x'' 9] = 0 \<and>
      timer_event (wait_timer (length (calls sys0))) \<notin> set [data_event 0 stdout ''x'' 9]"
    using ra by (simp add: c0)
  note tha = task_wait_results [OF sys0_ok a oka, where rt = rt0 and orc = out0 and ms = 50
      and es = "[data_event 0 stdout ''x'' 9]", THEN conjunct2, THEN conjunct1, THEN mp, OF h]
  have e1: "?s1 = sys0\<lparr>heap := (heap sys0)[0 := (heap sys0 ! 0)\<lparr>waiters := waiters (heap sys0 ! 0) @
                                     [wait_waiter 0]\<rparr>],
            sent := [setTimeout (wait_timer 0) 50],
            calls := [Awaiting (wait_race ''a'' 0)]\<rparr>"
    using tha [THEN conjunct1] by (simp add: c0)
  have w1: "sent ?s1 = [setTimeout (wait_timer 0) 50]"
    unfolding e1 by (simp add: c0)
  have e2: "?s2 = on_data rt0 0 stdout ''x'' 9 ?s1"
    unfolding e1 by (simp add: sys0_def)
  define s2 where "s2 = ?s2"
  have v: "state (heap s2 ! 0) = running" "pid (heap s2 ! 0) = 7"
    "calls s2 = [Awaiting (wait_race ''a'' 0)]"
    unfolding s2_def e2 e1 by (simp_all add: sys0_def task0_def)
  have f: "step rt0 s2 (timer_event (wait_timer 0)) =
          s2\<lparr>calls := (calls s2)[0 := Resolved (Inr (okJson (JObj
                  [(''id'', JStr ''a''), (''state'', state_json (state (heap s2 ! 0))),
                   (''pid'', JNum (pid (heap s2 ! 0))), (''timeout'', JBool True)])))]\<rparr>"
    unfolding s2_def
    using tha [THEN conjunct2, THEN conjunct2, THEN conjunct2] by (simp only: c0(1))
  have "calls (step rt0 s2 (timer_event (wait_timer 0))) =
     [Resolved (Inr (okJson (JObj
        [(''id'', JStr ''a''), (''state'', JStr ''running''), (''pid'', JNum 7),
         (''timeout'', JBool True)])))]"
    unfolding f by (simp add: v state_json_def)
  then have w2: "calls (run rt0 sys0 [tool_call (Task_wait ''a'' (Some 50)) out0, data_event 0 stdout ''x'' 9,
                        timer_event (wait_timer 0)]) =
     [Resolved (Inr (okJson (JObj
        [(''id'', JStr ''a''), (''state'', JStr ''running''), (''pid'', JNum 7),
         (''timeout'', JBool True)])))]"
    unfolding s2_def by simp
  define s1 where "s1 = ?s1"
  have aw1: "awaiting s1 0 = Some (wait_race ''a'' 0)"
    and v1: "state (heap s1 ! 0) = running" "pid (heap s1 ! 0) = 7"
      "calls s1 = [Awaiting (wait_race ''a'' 0)]"
    unfolding s1_def e1 by (simp_all add: awaiting_def sys0_def task0_def)
  have "calls (step rt0 s1 (timer_event (wait_timer 0))) =
     [Resolved (Inr (okJson (JObj
        [(''id'', JStr ''a''), (''state'', JStr ''running''), (''pid'', JNum 7),
         (''timeout'', JBool True)])))]"
    unfolding task_wait_results [OF sys0_ok a oka, where rt = rt0 and ?s2.0 = s1 and ?c2.0 = 0
        and ?i2.0 = "''a''" and ?r2.0 = 0, THEN conjunct2, THEN conjunct2, THEN conjunct1,
        THEN mp, OF aw1]
    by (simp add: v1 state_json_def)
  then have w3: "calls (step rt0 ?s1 (timer_event (wait_timer 0))) =
     [Resolved (Inr (okJson (JObj
        [(''id'', JStr ''a''), (''state'', JStr ''running''), (''pid'', JNum 7),
         (''timeout'', JBool True)])))]"
    unfolding s1_def .
  have w4: "awaiting ?s1 0 = Some (wait_race ''a'' 0)"
    using aw1 unfolding s1_def .
  show ?thesis
    using sys0_ok a b ra rb oka okb n wb w1 w2 w3 w4 by blast
qed

end
